theory Spec2Isabelle
  imports Main "HOL-Library.Word" "HOL-Library.Multiset" "HOL-Library.Extended_Nat"
begin

section \<open>Strings and numbers of the script\<close>

text \<open>
  A JavaScript string is a sequence of UTF-16 code units. The text of \<open>PropList.txt\<close>,
  the capture groups of the regular expression and the generated Rust source are all
  values of this type. \<open>str\<close> embeds an ASCII literal.
\<close>

type_synonym code_unit = "16 word"
type_synonym jsString = "code_unit list"

definition str :: "string \<Rightarrow> jsString" where
  "str s = map of_char s"

text \<open>
  The characters matched by \<open>\s\<close> (and removed by \<open>trim\<close>): the WhiteSpace and
  LineTerminator code points of ECMAScript.
\<close>

definition isWhiteSpace :: "code_unit \<Rightarrow> bool" where
  "isWhiteSpace c =
     (c = 0x09 \<or> c = 0x0A \<or> c = 0x0B \<or> c = 0x0C \<or> c = 0x0D \<or> c = 0x20 \<or> c = 0xA0
      \<or> c = 0x1680 \<or> (0x2000 \<le> c \<and> c \<le> 0x200A) \<or> c = 0x2028 \<or> c = 0x2029
      \<or> c = 0x202F \<or> c = 0x205F \<or> c = 0x3000 \<or> c = 0xFEFF)"

text \<open>\<open>[0-9A-F]\<close> under the \<open>i\<close> flag: the lower-case letters match as well.\<close>

definition isHexDigit :: "code_unit \<Rightarrow> bool" where
  "isHexDigit c =
     ((0x30 \<le> c \<and> c \<le> 0x39) \<or> (0x41 \<le> c \<and> c \<le> 0x46) \<or> (0x61 \<le> c \<and> c \<le> 0x66))"

text \<open>
  A Number is a double. The Numbers of the script are \<open>NaN\<close>, the non-negative integers
  that are doubles, and \<open>Infinity\<close>; \<open>Num\<close> holds the latter two as an extended
  natural number.
\<close>

datatype jsNumber = NaN | Num enat

text \<open>
  The Number for a mathematical integer \<open>n \<ge> 0\<close>: the double nearest to \<open>n\<close>, with ties
  going to the even significand. Every integer up to \<open>2^53\<close> is a double. Above, a double
  has 53 significant bits: with \<open>k = bitLength n - 53\<close> the doubles around \<open>n\<close> are the
  multiples of \<open>2^k\<close>, and a result of \<open>2^1024\<close> or more is \<open>Infinity\<close>.
\<close>

function bitLength :: "nat \<Rightarrow> nat" where
  "bitLength n = (if n = 0 then 0 else Suc (bitLength (n div 2)))"
  by pat_completeness auto
termination
  by (relation "measure id") auto

definition roundDouble :: "nat \<Rightarrow> enat" where
  "roundDouble n =
     (if n \<le> 2 ^ 53 then enat n
      else
        let k = bitLength n - 53;
            q = n div 2 ^ k;
            r = n mod 2 ^ k;
            m = (if 2 ^ k < 2 * r \<or> (2 * r = 2 ^ k \<and> odd q) then q + 1 else q)
        in if 2 ^ 1024 \<le> m * 2 ^ k then \<infinity> else enat (m * 2 ^ k))"

text \<open>
  What the script can throw: \<open>push\<close> on an array that is full. The limits are those of
  the language: an array holds at most \<open>2^32 - 1\<close> elements, and a string up to
  \<open>2^53 - 1\<close> code units, more than the script ever joins. The memory of a machine,
  which an engine runs out of earlier, is left out.
\<close>

datatype error = RangeError

section \<open>The regular expression\<close>

text \<open>
  \<open>dataRegex\<close> is
  \<^verbatim>\<open>/(^|\n)(?<codePointStart>[0-9A-F]+)(\.\.(?<codePointEnd>[0-9A-F]+))?\s*;\s*(?<property>[^\s]+)/gi\<close>.
  The constructs it uses are the constructors of \<open>regex\<close>; the matcher below is a
  backtracking matcher in the list-of-successes style: \<open>matches r i inp g\<close> lists, in the order
  in which backtracking would try them, the ways in which \<open>r\<close> can match a prefix of \<open>inp\<close>
  (the input from index \<open>i\<close> on), each as the number of code units consumed and the capture
  groups after the match. The first element is the match the engine reports.
\<close>

datatype charclass = Chr code_unit | HexDigitI | Space | NotSpace

fun inClass :: "charclass \<Rightarrow> code_unit \<Rightarrow> bool" where
  "inClass (Chr a) c = (c = a)"
| "inClass HexDigitI c = isHexDigit c"
| "inClass Space c = isWhiteSpace c"
| "inClass NotSpace c = (\<not> isWhiteSpace c)"

datatype gname = G_codePointStart | G_codePointEnd | G_property

record groups =
  codePointStart :: "jsString option"
  codePointEnd :: "jsString option"
  property :: "jsString option"

definition noGroups :: groups where
  "noGroups = \<lparr>codePointStart = None, codePointEnd = None, property = None\<rparr>"

fun setGroup :: "gname \<Rightarrow> jsString \<Rightarrow> groups \<Rightarrow> groups" where
  "setGroup G_codePointStart v g = g\<lparr>codePointStart := Some v\<rparr>"
| "setGroup G_codePointEnd v g = g\<lparr>codePointEnd := Some v\<rparr>"
| "setGroup G_property v g = g\<lparr>property := Some v\<rparr>"

datatype regex =
    Bol
  | Cls charclass
  | Seq regex regex
  | Alt regex regex
  | Opt regex
  | Star charclass
  | Plus charclass
  | Paren regex
  | Named gname regex

fun matches :: "regex \<Rightarrow> nat \<Rightarrow> jsString \<Rightarrow> groups \<Rightarrow> (nat \<times> groups) list" where
  "matches Bol i inp g = (if i = 0 then [(0, g)] else [])"
| "matches (Cls c) i inp g =
     (case inp of [] \<Rightarrow> [] | x # _ \<Rightarrow> if inClass c x then [(1, g)] else [])"
| "matches (Seq r1 r2) i inp g =
     concat (map (\<lambda>(n1, g1). map (\<lambda>(n2, g2). (n1 + n2, g2))
                                 (matches r2 (i + n1) (drop n1 inp) g1))
                 (matches r1 i inp g))"
| "matches (Alt r1 r2) i inp g = matches r1 i inp g @ matches r2 i inp g"
| "matches (Opt r) i inp g = filter (\<lambda>(n, _). n \<noteq> 0) (matches r i inp g) @ [(0, g)]"
| "matches (Star c) i inp g =
     map (\<lambda>n. (n, g)) (rev [0 ..< Suc (length (takeWhile (inClass c) inp))])"
| "matches (Plus c) i inp g =
     map (\<lambda>n. (n, g)) (rev [1 ..< Suc (length (takeWhile (inClass c) inp))])"
| "matches (Paren r) i inp g = matches r i inp g"
| "matches (Named nm r) i inp g =
     map (\<lambda>(n, g'). (n, setGroup nm (take n inp) g')) (matches r i inp g)"

fun firstOf :: "'a list \<Rightarrow> 'a option" where
  "firstOf [] = None"
| "firstOf (x # _) = Some x"

definition firstMatch :: "regex \<Rightarrow> nat \<Rightarrow> jsString \<Rightarrow> (nat \<times> groups) option" where
  "firstMatch r i inp = firstOf (matches r i inp noGroups)"

text \<open>
  \<open>String.prototype.matchAll\<close> with a global regular expression: starting at
  \<open>lastIndex = 0\<close>, the matcher is tried at \<open>lastIndex\<close>; when it fails there,
  \<open>lastIndex\<close> advances by one code unit; when it succeeds, the groups of the match are
  produced and \<open>lastIndex\<close> becomes the end of the match (one more after an empty match).
  The iteration ends when \<open>lastIndex\<close> passes the end of the text. \<open>inp\<close> is the text from
  \<open>lastIndex = i\<close> on.
\<close>

function matchAllFrom :: "regex \<Rightarrow> nat \<Rightarrow> jsString \<Rightarrow> groups list" where
  "matchAllFrom r i inp =
     (case firstMatch r i inp of
        None \<Rightarrow> (case inp of [] \<Rightarrow> [] | _ # cs \<Rightarrow> matchAllFrom r (Suc i) cs)
      | Some (n, g) \<Rightarrow>
          g # (if length inp < max 1 n then []
               else matchAllFrom r (i + max 1 n) (drop (max 1 n) inp)))"
  by pat_completeness auto
termination
  by (relation "measure (\<lambda>(r, i, inp). length inp)") auto

definition matchAll :: "regex \<Rightarrow> jsString \<Rightarrow> groups list" where
  "matchAll r text = matchAllFrom r 0 text"

definition dataRegex :: regex where
  "dataRegex =
     Seq (Paren (Alt Bol (Cls (Chr 0x0A))))
    (Seq (Named G_codePointStart (Plus HexDigitI))
    (Seq (Opt (Paren (Seq (Cls (Chr 0x2E)) (Seq (Cls (Chr 0x2E))
                (Named G_codePointEnd (Plus HexDigitI))))))
    (Seq (Star Space)
    (Seq (Cls (Chr 0x3B))
    (Seq (Star Space)
         (Named G_property (Plus NotSpace)))))))"

section \<open>The table builder\<close>

text \<open>
  \<open>parseInt(s, 16)\<close> on a capture group. The groups that reach it were matched by
  \<open>[0-9A-F]+\<close>, so the white-space, sign and \<open>0x\<close> steps of \<open>parseInt\<close> have nothing to
  do; what remains is reading the leading hexadecimal digits, with \<open>NaN\<close> when there is
  none (and for \<open>undefined\<close>).
\<close>

definition digitValue :: "code_unit \<Rightarrow> nat" where
  "digitValue c =
     (if 0x30 \<le> c \<and> c \<le> 0x39 then unat c - 0x30
      else if 0x41 \<le> c \<and> c \<le> 0x46 then unat c - 0x41 + 10
      else unat c - 0x61 + 10)"

definition hexValue :: "jsString \<Rightarrow> nat" where
  "hexValue ds = foldl (\<lambda>acc c. 16 * acc + digitValue c) 0 ds"

definition parseInt16 :: "jsString option \<Rightarrow> jsNumber" where
  "parseInt16 v =
     (case v of
        None \<Rightarrow> NaN
      | Some s \<Rightarrow>
          (let ds = takeWhile isHexDigit s
           in if ds = [] then NaN else Num (roundDouble (hexValue ds))))"

text \<open>\<open>cp++\<close>: the double nearest to \<open>cp + 1\<close>; \<open>Infinity\<close> stays.\<close>

definition increment :: "enat \<Rightarrow> enat" where
  "increment cp = (case cp of enat n \<Rightarrow> roundDouble (n + 1) | \<infinity> \<Rightarrow> \<infinity>)"

text \<open>
  The loop \<^verbatim>\<open>for (let cp = codePointStart; cp <= codePointEnd; cp++) codePoints.push(cp)\<close>.
  An array holds at most \<open>2^32 - 1\<close> elements: \<open>push\<close> on an array of that length throws
  a RangeError, which nothing in the script catches.
\<close>

function forLoop :: "enat \<Rightarrow> enat \<Rightarrow> enat list \<Rightarrow> error + enat list" where
  "forLoop cp cpEnd codePoints =
     (if cp \<le> cpEnd
      then (if 2 ^ 32 - 1 \<le> length codePoints then Inl RangeError
            else forLoop (increment cp) cpEnd (codePoints @ [cp]))
      else Inr codePoints)"
  by pat_completeness auto
termination
  by (relation "measure (\<lambda>(cp, cpEnd, codePoints). 2 ^ 32 - 1 - length codePoints)") auto

text \<open>The callback of \<open>reduce\<close>; a comparison with \<open>NaN\<close> is false, so the loop does not run.\<close>

fun pushRange :: "enat list \<Rightarrow> jsNumber \<times> jsNumber \<Rightarrow> error + enat list" where
  "pushRange codePoints (Num cpStart, Num cpEnd) = forLoop cpStart cpEnd codePoints"
| "pushRange codePoints _ = Inr codePoints"

text \<open>\<open>reduce\<close> from the left; an exception in the callback ends it.\<close>

fun reduce :: "enat list \<Rightarrow> (jsNumber \<times> jsNumber) list \<Rightarrow> error + enat list" where
  "reduce codePoints [] = Inr codePoints"
| "reduce codePoints (r # rs) =
     (case pushRange codePoints r of Inl e \<Rightarrow> Inl e | Inr codePoints' \<Rightarrow> reduce codePoints' rs)"

definition ranges :: "jsString \<Rightarrow> groups list \<Rightarrow> (jsNumber \<times> jsNumber) list" where
  "ranges propertyName d =
     map (\<lambda>(s, e). (parseInt16 s, parseInt16 e))
       (map (\<lambda>g. (codePointStart g,
                   case codePointEnd g of None \<Rightarrow> codePointStart g | Some e \<Rightarrow> Some e))
          (filter (\<lambda>g. property g = Some propertyName) d))"

definition expanded :: "jsString \<Rightarrow> groups list \<Rightarrow> error + enat list" where
  "expanded propertyName d = reduce [] (ranges propertyName d)"

text \<open>
  \<open>codePoints.sort((a, b) => a - b)\<close>: on integers the comparator is consistent, and the
  result is the ascending arrangement of the elements. The array holds integers only: a
  loop that meets \<open>Infinity\<close> does not end normally (lemma \<open>codePoints_entries\<close>).
\<close>

definition codePoints :: "jsString \<Rightarrow> groups list \<Rightarrow> error + enat list" where
  "codePoints propertyName d =
     (case expanded propertyName d of Inl e \<Rightarrow> Inl e | Inr a \<Rightarrow> Inr (sort a))"

section \<open>The code generator\<close>

definition digitChar :: "nat \<Rightarrow> code_unit" where
  "digitChar d = (if d < 10 then of_nat (0x30 + d) else of_nat (0x61 + (d - 10)))"

function digits16 :: "nat \<Rightarrow> jsString" where
  "digits16 n = (if n < 16 then [digitChar n] else digits16 (n div 16) @ [digitChar (n mod 16)])"
  by pat_completeness auto
termination
  by (relation "measure id") auto

text \<open>
  \<open>cp.toString(16)\<close>: the hexadecimal digits of an integer, in lower case, and
  \<open>Infinity\<close> by its name.
\<close>

definition toString16 :: "enat \<Rightarrow> jsString" where
  "toString16 cp = (case cp of enat n \<Rightarrow> digits16 n | \<infinity> \<Rightarrow> str ''Infinity'')"

definition padStart :: "nat \<Rightarrow> code_unit \<Rightarrow> jsString \<Rightarrow> jsString" where
  "padStart targetLength c s = replicate (targetLength - length s) c @ s"

text \<open>\<open>toUpperCase\<close> on the ASCII range, where the digits of \<open>toString(16)\<close> lie.\<close>

definition upperUnit :: "code_unit \<Rightarrow> code_unit" where
  "upperUnit c = (if 0x61 \<le> c \<and> c \<le> 0x7A then c - 0x20 else c)"

definition toUpperCase :: "jsString \<Rightarrow> jsString" where
  "toUpperCase s = map upperUnit s"

fun join :: "jsString \<Rightarrow> jsString list \<Rightarrow> jsString" where
  "join sep [] = []"
| "join sep [x] = x"
| "join sep (x # y # ys) = x @ sep @ join sep (y # ys)"

definition hexDigits :: "enat \<Rightarrow> jsString" where
  "hexDigits cp = toUpperCase (padStart 4 0x30 (toString16 cp))"

text \<open>
  The template \<^verbatim>\<open>'\\u{${...}}'\<close>: an apostrophe (0x27), a backslash (0x5C), \<open>u{\<close>, the
  digits, \<open>}\<close> and an apostrophe.
\<close>

definition literal :: "enat \<Rightarrow> jsString" where
  "literal cp = [0x27, 0x5C] @ str ''u{'' @ hexDigits cp @ str ''}'' @ [0x27]"

definition rustTable :: "enat list \<Rightarrow> jsString" where
  "rustTable cps = str ''&['' @ join (str '','') (map literal cps) @ str '']''"

definition rustVariable :: "jsString \<Rightarrow> enat list \<Rightarrow> jsString" where
  "rustVariable rustTableName cps =
     str ''pub(crate) static '' @ rustTableName @ str '': &[char] = '' @ rustTable cps @ str '';''"

definition trim :: "jsString \<Rightarrow> jsString" where
  "trim s = rev (dropWhile isWhiteSpace (rev (dropWhile isWhiteSpace s)))"

definition OUTPUT_FILE_DOC_COMMENT :: jsString where
  "OUTPUT_FILE_DOC_COMMENT = trim (
     str ''\<newline>//! This module implements the unicode lookup tables for identifier and pattern syntax.\<newline>'' @
     str ''//! Version: Unicode 14.0.0\<newline>'' @
     str ''//!\<newline>'' @
     str ''//! This file is generated by `boa_unicode/build_tables.js`. Please do not modify it directly.\<newline>'' @
     str ''//!\<newline>'' @
     str ''//! More information:\<newline>'' @
     str ''//!  - [Unicode'' @ [0xAE] @ str '' Standard Annex #44][uax44]\<newline>'' @
     str ''//!\<newline>'' @
     str ''//! [uax44]: http://unicode.org/reports/tr44\<newline>'')"

definition TARGET_PROPERTIES :: "(jsString \<times> jsString) list" where
  "TARGET_PROPERTIES =
     [(str ''Pattern_Syntax'', str ''PATTERN_SYNTAX''),
      (str ''Other_ID_Continue'', str ''OTHER_ID_CONTINUE''),
      (str ''Other_ID_Start'', str ''OTHER_ID_START''),
      (str ''Pattern_White_Space'', str ''PATTERN_WHITE_SPACE'')]"

text \<open>
  \<open>buildRustFile\<close> up to the text it hands to \<open>writeFileSync\<close>, or the exception that
  ends it before. The stages take the list of target properties as an argument; the script
  runs them on \<open>TARGET_PROPERTIES\<close>. \<open>map\<close> goes through the targets in order and stops
  at the first exception. The console messages and the call of \<open>rustfmt\<close> on the written
  file are not modelled.
\<close>

definition data :: "jsString \<Rightarrow> groups list" where
  "data propListText = matchAll dataRegex propListText"

fun rustVariables :: "(jsString \<times> jsString) list \<Rightarrow> jsString \<Rightarrow> error + jsString list" where
  "rustVariables [] propListText = Inr []"
| "rustVariables ((propertyName, rustTableName) # targets) propListText =
     (case codePoints propertyName (data propListText) of
        Inl e \<Rightarrow> Inl e
      | Inr cps \<Rightarrow>
          (case rustVariables targets propListText of
             Inl e \<Rightarrow> Inl e
           | Inr vs \<Rightarrow> Inr (rustVariable rustTableName cps # vs)))"

definition rustFile :: "(jsString \<times> jsString) list \<Rightarrow> jsString \<Rightarrow> error + jsString" where
  "rustFile targets propListText =
     (case rustVariables targets propListText of
        Inl e \<Rightarrow> Inl e
      | Inr vs \<Rightarrow>
          Inr (OUTPUT_FILE_DOC_COMMENT @ str ''\<newline>\<newline>'' @ join (str ''\<newline>\<newline>'') vs))"

definition buildRustFile :: "jsString \<Rightarrow> error + jsString" where
  "buildRustFile propListText = rustFile TARGET_PROPERTIES propListText"

section \<open>Vocabulary of the statements\<close>

text \<open>
  The code points a pair of numbers stands for: the integers from the first to the second,
  none when one is \<open>NaN\<close> or \<open>Infinity\<close>.
\<close>

fun rangeList :: "jsNumber \<times> jsNumber \<Rightarrow> enat list" where
  "rangeList (Num (enat s), Num (enat e)) = map enat [s ..< Suc e]"
| "rangeList _ = []"

text \<open>Two ranges overlap when they share a value.\<close>

fun overlap :: "jsNumber \<times> jsNumber \<Rightarrow> jsNumber \<times> jsNumber \<Rightarrow> bool" where
  "overlap (Num s1, Num e1) (Num s2, Num e2) = (max s1 s2 \<le> min e1 e2)"
| "overlap _ _ = False"

fun nonOverlapping :: "(jsNumber \<times> jsNumber) list \<Rightarrow> bool" where
  "nonOverlapping [] = True"
| "nonOverlapping (r # rs) = ((\<forall>r' \<in> set rs. \<not> overlap r r') \<and> nonOverlapping rs)"

text \<open>
  A range is plain when its end, unless below its start, is below \<open>2^53\<close>: there every
  integer is a double and \<open>cp++\<close> is exact. Every range of Unicode code points is plain.
\<close>

fun plain :: "jsNumber \<times> jsNumber \<Rightarrow> bool" where
  "plain (Num s, Num e) = (e < s \<or> e < enat (2 ^ 53))"
| "plain _ = True"

text \<open>
  The ranges of a property are within limits when all are plain and the integers they stand
  for are no more than an array can hold.
\<close>

definition withinLimits :: "(jsNumber \<times> jsNumber) list \<Rightarrow> bool" where
  "withinLimits rs =
     ((\<forall>r \<in> set rs. plain r) \<and> length (concat (map rangeList rs)) \<le> 2 ^ 32 - 1)"

text \<open>A value a Number can have: \<open>Infinity\<close> or an integer that is a double.\<close>

definition isDouble :: "enat \<Rightarrow> bool" where
  "isDouble x = (case x of enat n \<Rightarrow> roundDouble n = enat n | \<infinity> \<Rightarrow> True)"

fun doubles :: "jsNumber \<times> jsNumber \<Rightarrow> bool" where
  "doubles (Num s, Num e) = (isDouble s \<and> isDouble e)"
| "doubles _ = True"

text \<open>A double from \<open>2^53\<close> on: a significand of 53 bits times a power of two.\<close>

definition bigDouble :: "nat \<Rightarrow> nat \<Rightarrow> nat \<Rightarrow> bool" where
  "bigDouble x q k = (x = q * 2 ^ k \<and> 2 ^ 52 \<le> q \<and> q < 2 ^ 53 \<and> 1 \<le> k \<and> x < 2 ^ 1024)"

text \<open>
  A line of the listing written from its fields,
  \<open><hex-start>[..<hex-end>]<ws>;<ws><property-token>\<close>, and what makes the fields well formed.
\<close>

definition recordLine ::
  "jsString \<Rightarrow> jsString option \<Rightarrow> jsString \<Rightarrow> jsString \<Rightarrow> jsString \<Rightarrow> jsString" where
  "recordLine hs he ws1 ws2 tok =
     hs @ (case he of None \<Rightarrow> [] | Some e \<Rightarrow> str ''..'' @ e) @ ws1 @ str '';'' @ ws2 @ tok"

definition wellFormed ::
  "jsString \<Rightarrow> jsString option \<Rightarrow> jsString \<Rightarrow> jsString \<Rightarrow> jsString \<Rightarrow> bool" where
  "wellFormed hs he ws1 ws2 tok =
     (hs \<noteq> [] \<and> list_all isHexDigit hs
      \<and> (case he of None \<Rightarrow> True | Some e \<Rightarrow> e \<noteq> [] \<and> list_all isHexDigit e)
      \<and> list_all isWhiteSpace ws1 \<and> list_all isWhiteSpace ws2
      \<and> tok \<noteq> [] \<and> list_all (\<lambda>c. \<not> isWhiteSpace c) tok)"

text \<open>
  A line matches the record pattern when the regular expression, applied to the line on its
  own, matches at its start.
\<close>

definition matchesPattern :: "jsString \<Rightarrow> bool" where
  "matchesPattern l = (firstMatch dataRegex 0 l \<noteq> None)"

text \<open>
  A dangling row is the beginning of a record and nothing else: hexadecimal digits, perhaps
  \<open>..\<close> and more hexadecimal digits, then white space only, or white space, a semicolon and
  white space only. \<open>afterRange\<close> steps over the \<open>..<hex-end>\<close> part when there is one.
  A line is in order when it has no line feed in it and is not a dangling row, unless it
  matches the pattern.
\<close>

definition afterRange :: "jsString \<Rightarrow> jsString" where
  "afterRange r =
     (case r of
        a # b # c # z \<Rightarrow> if a = 0x2E \<and> b = 0x2E \<and> isHexDigit c then dropWhile isHexDigit z else r
      | _ \<Rightarrow> r)"

definition dangling :: "jsString \<Rightarrow> bool" where
  "dangling l =
     ((case l of [] \<Rightarrow> False | c # _ \<Rightarrow> isHexDigit c)
      \<and> (case dropWhile isWhiteSpace (afterRange (dropWhile isHexDigit l)) of
            [] \<Rightarrow> True
          | c # r \<Rightarrow> c = 0x3B \<and> dropWhile isWhiteSpace r = []))"

definition okLine :: "jsString \<Rightarrow> bool" where
  "okLine l = (0x0A \<notin> set l \<and> (dangling l \<longrightarrow> matchesPattern l))"

text \<open>The digits \<open>0-9\<close> and \<open>A-F\<close>: upper-case hexadecimal.\<close>

definition isUpperHexDigit :: "code_unit \<Rightarrow> bool" where
  "isUpperHexDigit c = ((0x30 \<le> c \<and> c \<le> 0x39) \<or> (0x41 \<le> c \<and> c \<le> 0x46))"

text \<open>
  What ECMAScript promises of \<open>sort\<close> with the comparator \<open>(a, b) => a - b\<close>, whatever
  algorithm the engine uses: the array afterwards holds the same elements and is in
  ascending order. \<open>buildRun\<close> is the pipeline with the sorting step left to the engine
  within that contract: the outcomes a run may have, a document or an exception.
\<close>

definition sortContract :: "enat list \<Rightarrow> enat list \<Rightarrow> bool" where
  "sortContract before after = (mset after = mset before \<and> sorted after)"

fun variablesRun :: "(jsString \<times> jsString) list \<Rightarrow> jsString \<Rightarrow> error + jsString list \<Rightarrow> bool" where
  "variablesRun [] propListText outcome = (outcome = Inr [])"
| "variablesRun ((propertyName, rustTableName) # targets) propListText outcome =
     (case expanded propertyName (data propListText) of
        Inl e \<Rightarrow> outcome = Inl e
      | Inr a \<Rightarrow>
          (\<exists>cps rest. sortContract a cps \<and> variablesRun targets propListText rest
             \<and> outcome = (case rest of Inl e \<Rightarrow> Inl e
                                      | Inr vs \<Rightarrow> Inr (rustVariable rustTableName cps # vs))))"

definition buildRun :: "(jsString \<times> jsString) list \<Rightarrow> jsString \<Rightarrow> error + jsString \<Rightarrow> bool" where
  "buildRun targets propListText outcome =
     (\<exists>v. variablesRun targets propListText v
        \<and> outcome = (case v of Inl e \<Rightarrow> Inl e
                              | Inr vs \<Rightarrow> Inr (OUTPUT_FILE_DOC_COMMENT @ str ''\<newline>\<newline>'' @
                                              join (str ''\<newline>\<newline>'') vs)))"

text \<open>The parts of \<open>dataRegex\<close> after the line start, named for the lemmas.\<close>

definition propertyPart :: regex where
  "propertyPart = Named G_property (Plus NotSpace)"

definition separatorPart :: regex where
  "separatorPart = Seq (Star Space) (Seq (Cls (Chr 0x3B)) (Seq (Star Space) propertyPart))"

definition rangePart :: regex where
  "rangePart = Opt (Paren (Seq (Cls (Chr 0x2E)) (Seq (Cls (Chr 0x2E))
                  (Named G_codePointEnd (Plus HexDigitI)))))"

definition recordPart :: regex where
  "recordPart = Seq (Named G_codePointStart (Plus HexDigitI)) (Seq rangePart separatorPart)"

section \<open>Lemmas\<close>

subsection \<open>Doubles\<close>

text \<open>
  The bit length of a number is characterised by the powers of two around it. A double from
  \<open>2^53\<close> on is even; adding one to it gives it back, except where the doubles are two
  apart and the significand is odd: there the tie goes to the next double.
\<close>

declare bitLength.simps [simp del]

lemma bitLength_bounds: "n < 2 ^ bitLength n \<and> (n \<noteq> 0 \<longrightarrow> 2 ^ (bitLength n - 1) \<le> n)"
proof (induction n rule: bitLength.induct)
  case (1 n)
  show ?case
  proof (cases "n = 0")
    case True
    then show ?thesis by (subst (1 2) bitLength.simps) simp
  next
    case False
    let ?b = "bitLength (n div 2)"
    have b: "bitLength n = Suc ?b"
      using False by (subst bitLength.simps) simp
    from "1.IH" [OF False] have up: "n div 2 < 2 ^ ?b"
      and lo: "n div 2 \<noteq> 0 \<longrightarrow> 2 ^ (?b - 1) \<le> n div 2" by simp_all
    from up have "n < 2 * 2 ^ ?b" by linarith
    moreover have "2 ^ ?b \<le> n"
    proof (cases "n div 2 = 0")
      case True
      then have "?b = 0" by (subst bitLength.simps) simp
      with False show ?thesis by simp
    next
      case nz: False
      then have "?b \<noteq> 0" by (subst bitLength.simps) simp
      then obtain c where c: "?b = Suc c" by (cases ?b) auto
      from lo nz have "2 ^ c \<le> n div 2" by (simp add: c)
      then have "2 * 2 ^ c \<le> n" by linarith
      then show ?thesis by (simp add: c)
    qed
    ultimately show ?thesis by (simp add: b)
  qed
qed

lemma bitLength_unique:
  assumes "2 ^ (L - 1) \<le> n" "n < 2 ^ L" "0 < L"
  shows "bitLength n = L"
proof -
  have nz: "n \<noteq> 0" using assms(1) by (cases "n = 0") auto
  from bitLength_bounds [of n] nz have up: "n < 2 ^ bitLength n" and lo: "2 ^ (bitLength n - 1) \<le> n"
    by simp_all
  have "(2::nat) ^ (L - 1) < 2 ^ bitLength n" using assms(1) up by linarith
  then have 1: "L - 1 < bitLength n" by (simp add: power_strict_increasing_iff)
  have "(2::nat) ^ (bitLength n - 1) < 2 ^ L" using lo assms(2) by linarith
  then have 2: "bitLength n - 1 < L" by (simp add: power_strict_increasing_iff)
  from 1 2 assms(3) show ?thesis by linarith
qed

lemma shape_bitLength:
  assumes "2 ^ 52 \<le> q" "q < 2 ^ 53" "j < 2 ^ k"
  shows "bitLength (q * 2 ^ k + j) = 53 + k"
proof (rule bitLength_unique)
  have "53 + k - 1 = 52 + k" by simp
  then have "(2::nat) ^ (53 + k - 1) = 2 ^ 52 * 2 ^ k" by (simp only: power_add)
  also have "\<dots> \<le> q * 2 ^ k" using assms(1) by (rule mult_right_mono) simp
  finally show "2 ^ (53 + k - 1) \<le> q * 2 ^ k + j" by simp
  have "q * 2 ^ k + j < q * 2 ^ k + 2 ^ k" using assms(3) by simp
  also have "\<dots> = (q + 1) * 2 ^ k" by simp
  also have "\<dots> \<le> 2 ^ 53 * 2 ^ k" using assms(2) by (intro mult_right_mono) simp_all
  also have "\<dots> = 2 ^ (53 + k)" by (simp only: power_add)
  finally show "q * 2 ^ k + j < 2 ^ (53 + k)" .
qed simp

lemma round_small: "n \<le> 2 ^ 53 \<Longrightarrow> roundDouble n = enat n"
  by (simp add: roundDouble_def)

lemma round_big:
  assumes "2 ^ 53 < n" "bitLength n = 53 + k" "n div 2 ^ k = q" "n mod 2 ^ k = r"
  shows "roundDouble n =
           (if 2 ^ 1024 \<le> (if 2 ^ k < 2 * r \<or> (2 * r = 2 ^ k \<and> odd q) then q + 1 else q) * 2 ^ k
            then \<infinity>
            else enat ((if 2 ^ k < 2 * r \<or> (2 * r = 2 ^ k \<and> odd q) then q + 1 else q) * 2 ^ k))"
  using assms by (simp add: roundDouble_def Let_def)

lemma big_decomp:
  assumes "2 ^ 53 < n"
  obtains k where "1 \<le> k" "bitLength n = 53 + k" "2 ^ 52 \<le> n div 2 ^ k" "n div 2 ^ k < 2 ^ 53"
proof -
  let ?L = "bitLength n"
  from assms have nz: "n \<noteq> 0" by (cases "n = 0") auto
  from bitLength_bounds [of n] nz have up: "n < 2 ^ ?L" and lo: "2 ^ (?L - 1) \<le> n" by simp_all
  from assms up have "(2::nat) ^ 53 < 2 ^ ?L" by (rule less_trans)
  then have L: "53 < ?L" by (simp only: power_strict_increasing_iff)
  define k where "k = ?L - 53"
  from L have k: "1 \<le> k" "?L = 53 + k" "?L - 1 = 52 + k" by (simp_all add: k_def)
  have "(2::nat) ^ 52 * 2 ^ k \<le> n" using lo unfolding k(3) by (simp only: power_add)
  then have q1: "2 ^ 52 \<le> n div 2 ^ k" by (simp only: less_eq_div_iff_mult_less_eq zero_less_power zero_less_numeral)
  have "n < 2 ^ 53 * 2 ^ k" using up unfolding k(2) by (simp only: power_add)
  then have q2: "n div 2 ^ k < 2 ^ 53" by (rule less_mult_imp_div_less)
  from k(1,2) q1 q2 show thesis by (rule that)
qed

lemma bigDouble_ge: "bigDouble x q k \<Longrightarrow> 2 ^ 53 \<le> x"
proof -
  assume b: "bigDouble x q k"
  then obtain j where j: "k = Suc j" by (cases k) (auto simp: bigDouble_def)
  have "(2::nat) ^ 53 = 2 ^ 52 * 2" by simp
  also have "\<dots> \<le> q * 2" using b by (intro mult_right_mono) (simp_all add: bigDouble_def)
  also have "\<dots> \<le> q * 2 ^ k" by (simp add: j)
  finally show ?thesis using b by (simp add: bigDouble_def)
qed

lemma round_bigDouble:
  assumes "bigDouble x q k"
  shows "roundDouble x = enat x"
proof (cases "x \<le> 2 ^ 53")
  case True
  then show ?thesis by (rule round_small)
next
  case False
  from assms have x: "x = q * 2 ^ k" and q: "2 ^ 52 \<le> q" "q < 2 ^ 53" and lim: "x < 2 ^ 1024"
    by (simp_all add: bigDouble_def)
  have L: "bitLength x = 53 + k"
    using shape_bitLength [OF q, of 0 k] by (simp add: x)
  have "roundDouble x = (if 2 ^ 1024 \<le> q * 2 ^ k then \<infinity> else enat (q * 2 ^ k))"
    using False by (subst round_big [OF _ L, of q 0]) (simp_all add: x)
  then show ?thesis using lim by (simp add: x)
qed

lemma round_succ_bigDouble:
  assumes "bigDouble x q k"
  shows "roundDouble (x + 1) = (if k = 1 \<and> odd q then enat (x + 2) else enat x)"
proof -
  from assms have x: "x = q * 2 ^ k" and q: "2 ^ 52 \<le> q" "q < 2 ^ 53" and k: "1 \<le> k"
    and lim: "x < 2 ^ 1024"
    by (simp_all add: bigDouble_def)
  have one: "(1::nat) < 2 ^ k" using k by (intro one_less_power) simp_all
  have big: "2 ^ 53 < x + 1" using bigDouble_ge [OF assms] by simp
  have L: "bitLength (x + 1) = 53 + k"
    using shape_bitLength [OF q one] by (simp add: x)
  have "(q * 2 ^ k + 1) div 2 ^ k = q + 1 div 2 ^ k" by (rule div_mult_self3) simp
  then have d: "(x + 1) div 2 ^ k = q" using one by (simp only: x div_less)
  have "(q * 2 ^ k + 1) mod 2 ^ k = 1 mod 2 ^ k" by (rule mod_mult_self3)
  then have m: "(x + 1) mod 2 ^ k = 1" using one by (simp only: x mod_less)
  have tie: "(2 * 1 = (2::nat) ^ k) = (k = 1)"
  proof (cases k)
    case 0 then show ?thesis using k by simp
  next
    case (Suc j) then show ?thesis by (cases j) auto
  qed
  have notmore: "\<not> (2::nat) ^ k < 2 * 1" using one by simp
  have r: "roundDouble (x + 1) =
             (if 2 ^ 1024 \<le> (if k = 1 \<and> odd q then q + 1 else q) * 2 ^ k then \<infinity>
              else enat ((if k = 1 \<and> odd q then q + 1 else q) * 2 ^ k))"
    by (subst round_big [OF big L d m]) (simp only: tie notmore simp_thms)
  show ?thesis
  proof (cases "k = 1 \<and> odd q")
    case True
    have "(q + 1) * 2 \<le> 2 ^ 53 * (2::nat)" using q(2) by (intro mult_right_mono) simp_all
    also have "\<dots> < 2 ^ 1024" by simp
    finally have "\<not> 2 ^ 1024 \<le> (q + 1) * 2 ^ k" using True by simp
    with True show ?thesis unfolding r by (simp add: x)
  next
    case False
    with lim show ?thesis unfolding r by (auto simp: x)
  qed
qed

lemma double_shape:
  assumes "roundDouble x = enat x" "2 ^ 53 \<le> x"
  obtains q k where "bigDouble x q k"
proof (cases "x = 2 ^ 53")
  case True
  have "bigDouble x (2 ^ 52) 1" by (simp add: bigDouble_def True)
  then show thesis by (rule that)
next
  case False
  with assms(2) have big: "2 ^ 53 < x" by simp
  from big_decomp [OF big] obtain k where k: "1 \<le> k" "bitLength x = 53 + k"
    and q: "2 ^ 52 \<le> x div 2 ^ k" "x div 2 ^ k < 2 ^ 53" by blast
  let ?q = "x div 2 ^ k" and ?r = "x mod 2 ^ k"
  let ?m = "if 2 ^ k < 2 * ?r \<or> (2 * ?r = 2 ^ k \<and> odd ?q) then ?q + 1 else ?q"
  from assms(1) round_big [OF big k(2) refl refl]
  have fin: "\<not> 2 ^ 1024 \<le> ?m * 2 ^ k" and eq: "?m * 2 ^ k = x"
    by (auto split: if_splits)
  from eq have "x mod 2 ^ k = 0" by (metis mod_mult_self2_is_0)
  then have r0: "?r = 0" .
  have "?m = ?q" using r0 by simp
  with eq fin have "x = ?q * 2 ^ k" "x < 2 ^ 1024" by simp_all
  with q k(1) have "bigDouble x ?q k" by (simp add: bigDouble_def)
  then show thesis by (rule that)
qed

lemma round_idem:
  assumes "roundDouble n = enat v"
  shows "roundDouble v = enat v"
proof (cases "n \<le> 2 ^ 53")
  case True
  with assms show ?thesis by (simp add: round_small)
next
  case False
  then have big: "2 ^ 53 < n" by simp
  from big_decomp [OF big] obtain k where k: "1 \<le> k" "bitLength n = 53 + k"
    and q: "2 ^ 52 \<le> n div 2 ^ k" "n div 2 ^ k < 2 ^ 53" by blast
  let ?q = "n div 2 ^ k" and ?r = "n mod 2 ^ k"
  let ?m = "if 2 ^ k < 2 * ?r \<or> (2 * ?r = 2 ^ k \<and> odd ?q) then ?q + 1 else ?q"
  from assms round_big [OF big k(2) refl refl]
  have fin: "\<not> 2 ^ 1024 \<le> ?m * 2 ^ k" and eq: "v = ?m * 2 ^ k"
    by (auto split: if_splits)
  have m: "?m = ?q \<or> ?m = ?q + 1" by simp
  show ?thesis
  proof (cases "?m < 2 ^ 53")
    case True
    moreover have "2 ^ 52 \<le> ?m" using q(1) by simp
    ultimately have "bigDouble v ?m k" using eq fin k(1) by (simp add: bigDouble_def)
    then show ?thesis by (rule round_bigDouble)
  next
    case False
    with m q(2) have "?m = 2 ^ 53" by auto
    then have v: "v = 2 ^ 53 * 2 ^ k" using eq by simp
    have "(2::nat) ^ 53 * 2 ^ k = 2 ^ 52 * 2 ^ (k + 1)" by simp
    with v fin \<open>?m = 2 ^ 53\<close> have "bigDouble v (2 ^ 52) (k + 1)"
      by (simp add: bigDouble_def)
    then show ?thesis by (rule round_bigDouble)
  qed
qed

subsection \<open>The loop and the ranges\<close>

text \<open>
  Below \<open>2^53\<close> the loop appends the integers of its range, or fills the array. A loop
  whose counter no longer advances fills the array; this is what happens to every loop that
  reaches \<open>2^53\<close>. Whenever the loop ends normally, on numbers that \<open>parseInt\<close> can
  return, it has appended the integers of its range.
\<close>

declare forLoop.simps [simp del]

lemma forLoop_done: "\<not> cp \<le> cpEnd \<Longrightarrow> forLoop cp cpEnd acc = Inr acc"
  by (subst forLoop.simps) simp

lemma forLoop_full:
  "cp \<le> cpEnd \<Longrightarrow> 2 ^ 32 - 1 \<le> length acc \<Longrightarrow> forLoop cp cpEnd acc = Inl RangeError"
  by (subst forLoop.simps) simp

lemma forLoop_step:
  "cp \<le> cpEnd \<Longrightarrow> \<not> 2 ^ 32 - 1 \<le> length acc \<Longrightarrow>
   forLoop cp cpEnd acc = forLoop (increment cp) cpEnd (acc @ [cp])"
  by (subst forLoop.simps) simp

lemma forLoop_stuck:
  "increment cp = cp \<Longrightarrow> cp \<le> cpEnd \<Longrightarrow> forLoop cp cpEnd acc = Inl RangeError"
proof (induction cp cpEnd acc rule: forLoop.induct)
  case (1 cp cpEnd acc)
  show ?case
  proof (cases "2 ^ 32 - 1 \<le> length acc")
    case True
    with "1.prems" show ?thesis by (simp add: forLoop_full)
  next
    case False
    have "forLoop cp cpEnd acc = forLoop (increment cp) cpEnd (acc @ [cp])"
      using "1.prems"(2) False by (rule forLoop_step)
    also have "\<dots> = Inl RangeError"
      using "1.IH" [OF "1.prems"(2) False] "1.prems" by simp
    finally show ?thesis .
  qed
qed

lemma increment_small: "n < 2 ^ 53 \<Longrightarrow> increment (enat n) = enat (n + 1)"
  by (simp add: increment_def round_small)

lemma forLoop_plain:
  assumes "e < 2 ^ 53"
  shows "forLoop (enat s) (enat e) acc =
           (if e < s then Inr acc
            else if length acc + (Suc e - s) \<le> 2 ^ 32 - 1 then Inr (acc @ map enat [s ..< Suc e])
            else Inl RangeError)"
  using assms
proof (induction "Suc e - s" arbitrary: s acc)
  case 0
  then have "e < s" by simp
  then show ?case by (simp add: forLoop_done)
next
  case (Suc d)
  then have se: "s \<le> e" by simp
  show ?case
  proof (cases "2 ^ 32 - 1 \<le> length acc")
    case True
    then have "\<not> length acc + (Suc e - s) \<le> 2 ^ 32 - 1" using se by simp
    with se True show ?thesis by (simp add: forLoop_full)
  next
    case False
    have inc: "increment (enat s) = enat (Suc s)"
      using se Suc.prems by (simp add: increment_small)
    have "forLoop (enat s) (enat e) acc = forLoop (enat (Suc s)) (enat e) (acc @ [enat s])"
      using se False by (simp add: forLoop_step inc)
    also have "\<dots> = (if e < Suc s then Inr (acc @ [enat s])
            else if length (acc @ [enat s]) + (Suc e - Suc s) \<le> 2 ^ 32 - 1
                 then Inr ((acc @ [enat s]) @ map enat [Suc s ..< Suc e])
            else Inl RangeError)"
      using Suc.hyps(2) Suc.prems by (intro Suc.hyps(1)) simp_all
    also have "\<dots> = (if length acc + (Suc e - s) \<le> 2 ^ 32 - 1 then Inr (acc @ map enat [s ..< Suc e])
            else Inl RangeError)"
      using se False by (auto simp: upt_conv_Cons)
    finally show ?thesis using se by simp
  qed
qed

lemma increment_bound: "increment (enat (2 ^ 53)) = enat (2 ^ 53)"
proof -
  have "bigDouble (2 ^ 53) (2 ^ 52) 1" by (simp add: bigDouble_def)
  from round_succ_bigDouble [OF this] show ?thesis by (simp add: increment_def)
qed

lemma forLoop_climb:
  "s \<le> 2 ^ 53 \<Longrightarrow> enat (2 ^ 53) \<le> cpEnd \<Longrightarrow> forLoop (enat s) cpEnd acc = Inl RangeError"
proof (induction "2 ^ 53 - s" arbitrary: s acc)
  case 0
  then have s: "s = 2 ^ 53" by simp
  have "forLoop (enat (2 ^ 53)) cpEnd acc = Inl RangeError"
    using increment_bound "0.prems"(2) by (rule forLoop_stuck)
  then show ?case by (simp only: s)
next
  case (Suc d)
  then have s: "s < 2 ^ 53" by simp
  then have le: "enat s \<le> cpEnd"
    using Suc.prems(2) by (meson enat_ord_simps(1) less_imp_le order_trans)
  show ?case
  proof (cases "2 ^ 32 - 1 \<le> length acc")
    case True
    with le show ?thesis by (simp add: forLoop_full)
  next
    case False
    have "forLoop (enat s) cpEnd acc = forLoop (enat (s + 1)) cpEnd (acc @ [enat s])"
      using le False s by (simp add: forLoop_step increment_small)
    also have "\<dots> = Inl RangeError"
      using Suc.hyps(2) s Suc.prems(2) by (intro Suc.hyps(1)) simp_all
    finally show ?thesis .
  qed
qed

lemma bigDouble_even: "bigDouble x q k \<Longrightarrow> even x"
  by (cases k) (auto simp: bigDouble_def)

lemma increment_after_tie:
  assumes "bigDouble x q 1" "odd q"
  shows "increment (enat (x + 2)) = enat (x + 2)"
proof -
  from assms(1) have x: "x = q * 2" and q: "2 ^ 52 \<le> q" "q < 2 ^ 53"
    by (simp_all add: bigDouble_def)
  have small: "x + 2 < 2 ^ 1024"
  proof -
    have "x + 2 \<le> 2 ^ 53 * (2::nat)" using q(2) by (simp add: x)
    also have "\<dots> < 2 ^ 1024" by simp
    finally show ?thesis .
  qed
  show ?thesis
  proof (cases "q + 1 < 2 ^ 53")
    case True
    have "bigDouble (x + 2) (q + 1) 1"
      using True q(1) small by (simp add: bigDouble_def x)
    from round_succ_bigDouble [OF this] assms(2) show ?thesis
      by (simp add: increment_def)
  next
    case False
    with q(2) have "q + 1 = 2 ^ 53" by simp
    then have "x + 2 = 2 ^ 53 * 2" by (simp add: x)
    then have "bigDouble (x + 2) (2 ^ 52) 2"
      using small by (simp add: bigDouble_def)
    from round_succ_bigDouble [OF this] show ?thesis
      by (simp add: increment_def)
  qed
qed

lemma forLoop_big:
  assumes b: "bigDouble x q k" and le: "enat x \<le> cpEnd" and d: "isDouble cpEnd"
    and ok: "forLoop (enat x) cpEnd acc = Inr r"
  shows "cpEnd = enat x \<and> r = acc @ [enat x]"
proof -
  have room: "\<not> 2 ^ 32 - 1 \<le> length acc"
    using ok forLoop_full [OF le, of acc] by auto
  have inc: "increment (enat x) = (if k = 1 \<and> odd q then enat (x + 2) else enat x)"
    using round_succ_bigDouble [OF b] by (simp add: increment_def)
  have tie: "k = 1 \<and> odd q"
  proof (rule ccontr)
    assume "\<not> (k = 1 \<and> odd q)"
    with inc have "increment (enat x) = enat x" by simp
    from forLoop_stuck [OF this le, of acc] ok show False by simp
  qed
  with inc have step: "forLoop (enat (x + 2)) cpEnd (acc @ [enat x]) = Inr r"
    using ok forLoop_step [OF le room] by simp
  have beyond: "\<not> enat (x + 2) \<le> cpEnd"
  proof
    assume "enat (x + 2) \<le> cpEnd"
    moreover from b tie have "increment (enat (x + 2)) = enat (x + 2)"
      by (intro increment_after_tie [of x q]) simp_all
    ultimately have "forLoop (enat (x + 2)) cpEnd (acc @ [enat x]) = Inl RangeError"
      by (intro forLoop_stuck)
    with step show False by simp
  qed
  then have r: "r = acc @ [enat x]"
    using step by (simp add: forLoop_done)
  from beyond le obtain e where e: "cpEnd = enat e" "x \<le> e" "e < x + 2"
    by (cases cpEnd) auto
  from d e(1) have "roundDouble e = enat e" by (simp add: isDouble_def)
  moreover have "2 ^ 53 \<le> e" using bigDouble_ge [OF b] e(2) by simp
  ultimately obtain q' k' where "bigDouble e q' k'" by (rule double_shape)
  then have "even e" by (rule bigDouble_even)
  moreover have "even x" using b by (rule bigDouble_even)
  ultimately have "e = x" using e(2,3) by presburger
  with e(1) r show ?thesis by simp
qed

lemma forLoop_exact:
  assumes "isDouble s" "isDouble e" "forLoop s e acc = Inr r"
  shows "r = acc @ rangeList (Num s, Num e)"
proof (cases s)
  case infinity
  show ?thesis
  proof (cases "s \<le> e")
    case True
    have "increment s = s" by (simp add: infinity increment_def)
    from forLoop_stuck [OF this True, of acc] assms(3) show ?thesis by simp
  next
    case False
    with assms(3) show ?thesis by (simp add: forLoop_done infinity)
  qed
next
  case (enat a)
  show ?thesis
  proof (cases "s \<le> e")
    case False
    then have "rangeList (Num s, Num e) = []"
      by (cases e) (simp_all add: enat)
    with False assms(3) show ?thesis by (simp add: forLoop_done)
  next
    case True
    show ?thesis
    proof (cases "e < enat (2 ^ 53)")
      case small: True
      then obtain b where b: "e = enat b" "b < 2 ^ 53" by (cases e) auto
      from True have ab: "a \<le> b" by (simp add: enat b)
      from forLoop_plain [OF b(2), of a acc] assms(3) ab show ?thesis
        by (auto simp: enat b split: if_splits)
    next
      case large: False
      then have ge: "enat (2 ^ 53) \<le> e" by simp
      show ?thesis
      proof (cases "a \<le> 2 ^ 53")
        case True
        from forLoop_climb [OF True ge, of acc] assms(3) show ?thesis by (simp add: enat)
      next
        case False
        from assms(1) have "roundDouble a = enat a" by (simp add: isDouble_def enat)
        moreover from False have "2 ^ 53 \<le> a" by simp
        ultimately obtain q k where "bigDouble a q k" by (rule double_shape)
        from forLoop_big [OF this _ assms(2)] True assms(3)
        have "e = enat a" "r = acc @ [enat a]" by (simp_all add: enat)
        then show ?thesis by (simp add: enat)
      qed
    qed
  qed
qed

lemma pushRange_exact:
  "doubles x \<Longrightarrow> pushRange acc x = Inr r \<Longrightarrow> r = acc @ rangeList x"
  by (cases "(acc, x)" rule: pushRange.cases) (auto simp: forLoop_exact)

lemma reduce_exact:
  "\<forall>x \<in> set rs. doubles x \<Longrightarrow> reduce acc rs = Inr r \<Longrightarrow> r = acc @ concat (map rangeList rs)"
proof (induction rs arbitrary: acc)
  case Nil
  then show ?case by simp
next
  case (Cons x rs)
  from Cons.prems(2) obtain acc' where p: "pushRange acc x = Inr acc'" and q: "reduce acc' rs = Inr r"
    by (auto split: sum.splits)
  from pushRange_exact [OF _ p] Cons.prems(1) have "acc' = acc @ rangeList x" by simp
  moreover from Cons.IH [OF _ q] Cons.prems(1) have "r = acc' @ concat (map rangeList rs)" by simp
  ultimately show ?case by simp
qed

lemma pushRange_plain:
  assumes "plain x" "length acc + length (rangeList x) \<le> 2 ^ 32 - 1"
  shows "pushRange acc x = Inr (acc @ rangeList x)"
proof (cases "(acc, x)" rule: pushRange.cases)
  case (1 cps s e)
  show ?thesis
  proof (cases "s \<le> e")
    case False
    then have "rangeList (Num s, Num e) = []"
      by (cases s; cases e) simp_all
    with False 1 show ?thesis by (simp add: forLoop_done)
  next
    case True
    with assms(1) 1 have "e < enat (2 ^ 53)" by auto
    then obtain b where b: "e = enat b" "b < 2 ^ 53" by (cases e) auto
    with True obtain a where a: "s = enat a" "a \<le> b" by (cases s) auto
    from 1 have x: "x = (Num (enat a), Num (enat b))" by (simp add: a b)
    have "length (rangeList x) = Suc b - a"
      unfolding x rangeList.simps length_map length_upt ..
    with assms(2) have "length acc + (Suc b - a) \<le> 2 ^ 32 - 1"
      by simp
    with forLoop_plain [OF b(2), of a acc] a(2) show ?thesis
      by (simp add: x)
  qed
qed (use assms in auto)

lemma reduce_plain:
  "\<forall>x \<in> set rs. plain x \<Longrightarrow> length acc + length (concat (map rangeList rs)) \<le> 2 ^ 32 - 1 \<Longrightarrow>
   reduce acc rs = Inr (acc @ concat (map rangeList rs))"
proof (induction rs arbitrary: acc)
  case Nil
  then show ?case by simp
next
  case (Cons x rs)
  have "pushRange acc x = Inr (acc @ rangeList x)"
    using Cons.prems by (intro pushRange_plain) simp_all
  moreover have "reduce (acc @ rangeList x) rs = Inr ((acc @ rangeList x) @ concat (map rangeList rs))"
    using Cons.prems by (intro Cons.IH) simp_all
  ultimately show ?case by simp
qed

lemma isDouble_round: "isDouble (roundDouble n)"
  by (cases "roundDouble n") (simp_all add: isDouble_def round_idem)

lemma parseInt16_double: "doubles (parseInt16 a, parseInt16 b)"
  by (cases a; cases b) (simp_all add: parseInt16_def Let_def isDouble_round)

lemma ranges_doubles: "\<forall>x \<in> set (ranges propertyName d). doubles x"
  by (auto simp: ranges_def parseInt16_double)

subsection \<open>First matches of the parts of a regular expression\<close>

lemma firstOf_append: "firstOf (xs @ ys) = (case firstOf xs of Some x \<Rightarrow> Some x | None \<Rightarrow> firstOf ys)"
  by (cases xs) simp_all

lemma firstOf_None: "firstOf xs = None \<longleftrightarrow> xs = []"
  by (cases xs) simp_all

lemma firstOf_map: "firstOf (map f xs) = map_option f (firstOf xs)"
  by (cases xs) simp_all

lemma first_Seq:
  assumes "firstOf (matches r1 i inp g) = Some (n1, g1)"
    and "firstOf (matches r2 (i + n1) (drop n1 inp) g1) = Some (n2, g2)"
  shows "firstOf (matches (Seq r1 r2) i inp g) = Some (n1 + n2, g2)"
proof -
  from assms(1) obtain xs where xs: "matches r1 i inp g = (n1, g1) # xs"
    by (cases "matches r1 i inp g") simp_all
  show ?thesis
    using assms(2) by (simp add: xs firstOf_append firstOf_map)
qed

lemma first_Named:
  "firstOf (matches r i inp g) = Some (n, g') \<Longrightarrow>
   firstOf (matches (Named nm r) i inp g) = Some (n, setGroup nm (take n inp) g')"
  by (simp add: firstOf_map)

lemma rev_upt_Suc: "lo \<le> N \<Longrightarrow> rev [lo ..< Suc N] = N # rev [lo ..< N]"
  by simp

lemma first_Plus:
  "takeWhile (inClass c) inp = xs \<Longrightarrow> xs \<noteq> [] \<Longrightarrow>
   firstOf (matches (Plus c) i inp g) = Some (length xs, g)"
  by (cases xs) simp_all

lemma first_Star:
  "takeWhile (inClass c) inp = xs \<Longrightarrow> firstOf (matches (Star c) i inp g) = Some (length xs, g)"
  by simp

lemma first_Cls:
  "inClass c x \<Longrightarrow> firstOf (matches (Cls c) i (x # inp) g) = Some (1, g)"
  by simp

lemma first_Opt:
  "firstOf (matches r i inp g) = Some (n, g') \<Longrightarrow> n \<noteq> 0 \<Longrightarrow>
   firstOf (matches (Opt r) i inp g) = Some (n, g')"
  by (cases "matches r i inp g") auto

lemma first_Opt_skip:
  "matches r i inp g = [] \<Longrightarrow> firstOf (matches (Opt r) i inp g) = Some (0, g)"
  by simp

lemma takeWhile_run:
  "list_all P xs \<Longrightarrow> ys = [] \<or> \<not> P (hd ys) \<Longrightarrow> takeWhile P (xs @ ys) = xs"
  by (induction xs) (auto simp: takeWhile_eq_Nil_iff hd_conv_nth neq_Nil_conv)

declare matches.simps [simp del]

subsection \<open>A well-formed record is matched greedily\<close>

lemma dataRegex_parts: "dataRegex = Seq (Paren (Alt Bol (Cls (Chr 0x0A)))) recordPart"
  by (simp add: dataRegex_def recordPart_def rangePart_def separatorPart_def propertyPart_def)

lemma not_ws_semi: "\<not> isWhiteSpace 0x3B" by (simp add: isWhiteSpace_def)
lemma not_ws_dot: "\<not> isWhiteSpace 0x2E" by (simp add: isWhiteSpace_def)
lemma not_hex_semi: "\<not> isHexDigit 0x3B" by (simp add: isHexDigit_def)
lemma not_hex_dot: "\<not> isHexDigit 0x2E" by (simp add: isHexDigit_def)
lemma not_hex_nl: "\<not> isHexDigit 0x0A" by (simp add: isHexDigit_def)
lemma ws_nl: "isWhiteSpace 0x0A" by (simp add: isWhiteSpace_def)
lemma not_hex_ws: "isWhiteSpace c \<Longrightarrow> \<not> isHexDigit c"
  by (auto simp: isWhiteSpace_def isHexDigit_def word_le_nat_alt)

lemma first_propertyPart:
  assumes "tok \<noteq> []" "list_all (\<lambda>c. \<not> isWhiteSpace c) tok" "after = [] \<or> isWhiteSpace (hd after)"
  shows "firstOf (matches propertyPart i (tok @ after) g)
           = Some (length tok, g\<lparr>property := Some tok\<rparr>)"
proof -
  have "takeWhile (inClass NotSpace) (tok @ after) = tok"
    using assms(2,3) by (intro takeWhile_run) (simp_all add: list_all_iff)
  then have "firstOf (matches (Plus NotSpace) i (tok @ after) g) = Some (length tok, g)"
    using assms(1) by (rule first_Plus)
  then have "firstOf (matches (Named G_property (Plus NotSpace)) i (tok @ after) g)
               = Some (length tok, setGroup G_property (take (length tok) (tok @ after)) g)"
    by (rule first_Named)
  then show ?thesis
    unfolding propertyPart_def by simp
qed

lemma first_separatorPart:
  assumes "list_all isWhiteSpace ws1" "list_all isWhiteSpace ws2"
    "tok \<noteq> []" "list_all (\<lambda>c. \<not> isWhiteSpace c) tok" "after = [] \<or> isWhiteSpace (hd after)"
  shows "firstOf (matches separatorPart i (ws1 @ 0x3B # ws2 @ tok @ after) g)
           = Some (length ws1 + 1 + length ws2 + length tok, g\<lparr>property := Some tok\<rparr>)"
proof -
  have tw1: "takeWhile (inClass Space) (ws1 @ 0x3B # ws2 @ tok @ after) = ws1"
    using assms(1) by (intro takeWhile_run) (simp_all add: list_all_iff not_ws_semi)
  have tw2: "takeWhile (inClass Space) (ws2 @ tok @ after) = ws2"
    using assms(2,3,4) by (intro takeWhile_run) (auto simp: list_all_iff neq_Nil_conv)
  have p: "firstOf (matches (Seq (Star Space) propertyPart) j (ws2 @ tok @ after) g)
             = Some (length ws2 + length tok, g\<lparr>property := Some tok\<rparr>)" for j
    by (rule first_Seq [OF first_Star [OF tw2]]) (simp add: first_propertyPart assms)
  have s: "firstOf (matches (Seq (Cls (Chr 0x3B)) (Seq (Star Space) propertyPart)) j
                      (0x3B # ws2 @ tok @ after) g)
             = Some (1 + (length ws2 + length tok), g\<lparr>property := Some tok\<rparr>)" for j
    by (rule first_Seq [OF first_Cls]) (simp_all add: p)
  have "firstOf (matches separatorPart i (ws1 @ 0x3B # ws2 @ tok @ after) g)
          = Some (length ws1 + (1 + (length ws2 + length tok)), g\<lparr>property := Some tok\<rparr>)"
    unfolding separatorPart_def
    by (rule first_Seq [OF first_Star [OF tw1]]) (simp add: s)
  then show ?thesis by (simp add: add.assoc)
qed

lemma recordPart_fail:
  "inp = [] \<or> \<not> isHexDigit (hd inp) \<Longrightarrow> matches recordPart i inp g = []"
proof -
  assume "inp = [] \<or> \<not> isHexDigit (hd inp)"
  then have "takeWhile (inClass HexDigitI) inp = []"
    by (cases inp) auto
  then show ?thesis
    by (simp add: recordPart_def matches.simps)
qed

lemma dataRegex_nl:
  "matches dataRegex i (0x0A # rest) g
     = map (\<lambda>(n, g'). (Suc n, g')) (matches recordPart (Suc i) rest g)"
proof -
  have "matches recordPart 0 (0x0A # rest) g = []"
    by (rule recordPart_fail) (simp add: not_hex_nl)
  then show ?thesis
    by (simp add: dataRegex_parts matches.simps)
qed

lemma dataRegex_other:
  "inp = [] \<or> hd inp \<noteq> 0x0A \<Longrightarrow>
   matches dataRegex i inp g = (if i = 0 then matches recordPart 0 inp g else [])"
  by (cases inp) (auto simp: dataRegex_parts matches.simps)

lemma Cls_fail: "inp = [] \<or> \<not> inClass c (hd inp) \<Longrightarrow> matches (Seq (Cls c) r) i inp g = []"
  by (cases inp) (auto simp: matches.simps)

lemma first_range_sep:
  assumes wf: "wellFormed hs he ws1 ws2 tok" and af: "after = [] \<or> isWhiteSpace (hd after)"
  shows "firstOf (matches (Seq rangePart separatorPart) i
            ((case he of None \<Rightarrow> [] | Some e \<Rightarrow> str ''..'' @ e) @ ws1 @ str '';'' @ ws2 @ tok @ after) g)
         = Some (length (case he of None \<Rightarrow> [] | Some e \<Rightarrow> str ''..'' @ e) + length ws1 + 1 + length ws2 + length tok,
                 g\<lparr>codePointEnd := (case he of None \<Rightarrow> codePointEnd g | Some e \<Rightarrow> Some e), property := Some tok\<rparr>)"
proof -
  let ?rest = "ws1 @ 0x3B # ws2 @ tok @ after"
  from wf have ws: "list_all isWhiteSpace ws1" "list_all isWhiteSpace ws2"
    and tok: "tok \<noteq> []" "list_all (\<lambda>c. \<not> isWhiteSpace c) tok"
    by (simp_all add: wellFormed_def)
  have sep: "firstOf (matches separatorPart j ?rest g') 
               = Some (length ws1 + 1 + length ws2 + length tok, g'\<lparr>property := Some tok\<rparr>)" for j g'
    by (rule first_separatorPart [OF ws tok af])
  have hd_rest: "?rest \<noteq> [] \<and> \<not> isHexDigit (hd ?rest) \<and> hd ?rest \<noteq> 0x2E"
    using ws(1) by (cases ws1) (auto simp: not_hex_semi not_hex_ws not_ws_dot)
  show ?thesis
  proof (cases he)
    case None
    have "matches (Paren (Seq (Cls (Chr 0x2E)) (Seq (Cls (Chr 0x2E))
                  (Named G_codePointEnd (Plus HexDigitI))))) i ?rest g = []"
      using hd_rest by (simp add: matches.simps(8) Cls_fail)
    then have "firstOf (matches rangePart i ?rest g) = Some (0, g)"
      unfolding rangePart_def by (rule first_Opt_skip)
    then have "firstOf (matches (Seq rangePart separatorPart) i ?rest g)
                 = Some (0 + (length ws1 + 1 + length ws2 + length tok), g\<lparr>property := Some tok\<rparr>)"
      by (rule first_Seq) (simp add: sep)
    then show ?thesis
      using None by (simp add: str_def)
  next
    case (Some e)
    with wf have e: "e \<noteq> []" "list_all isHexDigit e"
      by (simp_all add: wellFormed_def)
    have tw: "takeWhile (inClass HexDigitI) (e @ ?rest) = e"
      using e(2) hd_rest by (intro takeWhile_run) (simp_all add: list_all_iff)
    have "firstOf (matches (Named G_codePointEnd (Plus HexDigitI)) j (e @ ?rest) g)
            = Some (length e, setGroup G_codePointEnd (take (length e) (e @ ?rest)) g)" for j
      by (rule first_Named [OF first_Plus [OF tw e(1)]])
    then have n: "firstOf (matches (Named G_codePointEnd (Plus HexDigitI)) j (e @ ?rest) g)
            = Some (length e, g\<lparr>codePointEnd := Some e\<rparr>)" for j
      by simp
    have d1: "firstOf (matches (Seq (Cls (Chr 0x2E)) (Named G_codePointEnd (Plus HexDigitI))) j
                 (0x2E # e @ ?rest) g) = Some (1 + length e, g\<lparr>codePointEnd := Some e\<rparr>)" for j
      by (rule first_Seq [OF first_Cls]) (simp_all add: n)
    have d2: "firstOf (matches (Seq (Cls (Chr 0x2E)) (Seq (Cls (Chr 0x2E)) (Named G_codePointEnd (Plus HexDigitI)))) j
                 (0x2E # 0x2E # e @ ?rest) g) = Some (1 + (1 + length e), g\<lparr>codePointEnd := Some e\<rparr>)" for j
      by (rule first_Seq [OF first_Cls]) (simp_all add: d1)
    have "firstOf (matches rangePart i (0x2E # 0x2E # e @ ?rest) g)
            = Some (1 + (1 + length e), g\<lparr>codePointEnd := Some e\<rparr>)"
      unfolding rangePart_def by (rule first_Opt) (simp_all add: matches.simps(8) d2)
    then have "firstOf (matches (Seq rangePart separatorPart) i (0x2E # 0x2E # e @ ?rest) g)
            = Some (1 + (1 + length e) + (length ws1 + 1 + length ws2 + length tok),
                    g\<lparr>codePointEnd := Some e, property := Some tok\<rparr>)"
      by (rule first_Seq) (simp add: sep)
    then show ?thesis
      using Some by (simp add: str_def)
  qed
qed

declare matchAllFrom.simps [simp del]

lemma hd_range_rest:
  assumes "wellFormed hs he ws1 ws2 tok"
  shows "\<not> isHexDigit (hd ((case he of None \<Rightarrow> [] | Some e \<Rightarrow> str ''..'' @ e) @ ws1 @ str '';'' @ ws2 @ tok @ after))"
proof (cases he)
  case None
  from assms have "list_all isWhiteSpace ws1" by (simp add: wellFormed_def)
  then show ?thesis using None
    by (cases ws1) (auto simp: str_def not_hex_semi not_hex_ws)
next
  case (Some e)
  then show ?thesis by (simp add: str_def not_hex_dot)
qed

lemma first_recordPart:
  assumes wf: "wellFormed hs he ws1 ws2 tok" and af: "after = [] \<or> isWhiteSpace (hd after)"
  shows "firstOf (matches recordPart i (recordLine hs he ws1 ws2 tok @ after) g)
         = Some (length (recordLine hs he ws1 ws2 tok),
                 g\<lparr>codePointStart := Some hs,
                   codePointEnd := (case he of None \<Rightarrow> codePointEnd g | Some e \<Rightarrow> Some e),
                   property := Some tok\<rparr>)"
proof -
  let ?rng = "case he of None \<Rightarrow> [] | Some e \<Rightarrow> str ''..'' @ e"
  let ?rest = "?rng @ ws1 @ str '';'' @ ws2 @ tok @ after"
  from wf have hs: "hs \<noteq> []" "list_all isHexDigit hs"
    by (simp_all add: wellFormed_def)
  have line: "recordLine hs he ws1 ws2 tok @ after = hs @ ?rest"
    by (simp add: recordLine_def)
  have "?rest \<noteq> []" by (simp add: str_def)
  have tw: "takeWhile (inClass HexDigitI) (hs @ ?rest) = hs"
    using hs(2) hd_range_rest [OF wf, of after]
    by (intro takeWhile_run) (simp_all add: list_all_iff)
  have "firstOf (matches (Named G_codePointStart (Plus HexDigitI)) i (hs @ ?rest) g)
          = Some (length hs, setGroup G_codePointStart (take (length hs) (hs @ ?rest)) g)"
    by (rule first_Named [OF first_Plus [OF tw hs(1)]])
  then have st: "firstOf (matches (Named G_codePointStart (Plus HexDigitI)) i (hs @ ?rest) g)
          = Some (length hs, g\<lparr>codePointStart := Some hs\<rparr>)"
    by simp
  have "firstOf (matches recordPart i (hs @ ?rest) g)
          = Some (length hs + (length ?rng + length ws1 + 1 + length ws2 + length tok),
                  g\<lparr>codePointStart := Some hs,
                    codePointEnd := (case he of None \<Rightarrow> codePointEnd g | Some e \<Rightarrow> Some e),
                    property := Some tok\<rparr>)"
    unfolding recordPart_def
    by (rule first_Seq [OF st]) (simp add: first_range_sep [OF wf af] split: option.split)
  then show ?thesis
    by (simp add: line) (simp add: recordLine_def str_def)
qed

lemma firstMatch_line_start:
  assumes wf: "wellFormed hs he ws1 ws2 tok" and af: "after = [] \<or> isWhiteSpace (hd after)"
  shows "firstMatch dataRegex 0 (recordLine hs he ws1 ws2 tok @ after)
           = Some (length (recordLine hs he ws1 ws2 tok),
                   \<lparr>codePointStart = Some hs, codePointEnd = he, property = Some tok\<rparr>)"
proof -
  have "recordLine hs he ws1 ws2 tok \<noteq> []"
    using wf by (simp add: recordLine_def wellFormed_def)
  moreover have "isHexDigit (hd (recordLine hs he ws1 ws2 tok))"
    using wf by (cases hs) (simp_all add: recordLine_def wellFormed_def)
  ultimately have "hd (recordLine hs he ws1 ws2 tok @ after) \<noteq> 0x0A"
    using not_hex_nl by auto
  then show ?thesis
    unfolding firstMatch_def
    by (simp add: dataRegex_other first_recordPart [OF wf af] noGroups_def split: option.splits)
qed

lemma firstMatch_line_nl:
  assumes wf: "wellFormed hs he ws1 ws2 tok" and af: "after = [] \<or> isWhiteSpace (hd after)"
  shows "firstMatch dataRegex i (0x0A # recordLine hs he ws1 ws2 tok @ after)
           = Some (Suc (length (recordLine hs he ws1 ws2 tok)),
                   \<lparr>codePointStart = Some hs, codePointEnd = he, property = Some tok\<rparr>)"
  unfolding firstMatch_def
  by (simp add: dataRegex_nl firstOf_map first_recordPart [OF wf af] noGroups_def split: option.splits)

lemma firstMatch_no_line_start:
  "i \<noteq> 0 \<Longrightarrow> inp = [] \<or> hd inp \<noteq> 0x0A \<Longrightarrow> firstMatch dataRegex i inp = None"
  by (simp add: firstMatch_def dataRegex_other)

lemma firstMatch_not_hex_start:
  "inp = [] \<or> (hd inp \<noteq> 0x0A \<and> \<not> isHexDigit (hd inp)) \<Longrightarrow> firstMatch dataRegex i inp = None"
  by (auto simp: firstMatch_def dataRegex_other recordPart_fail)

lemma firstMatch_nl_not_hex:
  "rest = [] \<or> \<not> isHexDigit (hd rest) \<Longrightarrow> firstMatch dataRegex i (0x0A # rest) = None"
  by (simp add: firstMatch_def dataRegex_nl recordPart_fail)

lemma matchAllFrom_Nil: "matchAllFrom dataRegex i [] = []"
  by (subst matchAllFrom.simps) (simp add: firstMatch_not_hex_start)

lemma matchAllFrom_skip:
  "firstMatch r i (c # cs) = None \<Longrightarrow> matchAllFrom r i (c # cs) = matchAllFrom r (Suc i) cs"
  by (subst matchAllFrom.simps) simp

lemma matchAllFrom_emit:
  "firstMatch r i inp = Some (n, g) \<Longrightarrow> 1 \<le> n \<Longrightarrow> n \<le> length inp \<Longrightarrow>
   matchAllFrom r i inp = g # matchAllFrom r (i + n) (drop n inp)"
  by (subst matchAllFrom.simps) (simp add: max_def)

lemma matchAllFrom_skip_run:
  "i \<noteq> 0 \<Longrightarrow> 0x0A \<notin> set xs \<Longrightarrow>
   matchAllFrom dataRegex i (xs @ ys) = matchAllFrom dataRegex (i + length xs) ys"
proof (induction xs arbitrary: i)
  case Nil
  then show ?case by simp
next
  case (Cons x xs)
  have "firstMatch dataRegex i (x # xs @ ys) = None"
    using Cons.prems by (intro firstMatch_no_line_start) auto
  then have "matchAllFrom dataRegex i ((x # xs) @ ys) = matchAllFrom dataRegex (Suc i) (xs @ ys)"
    by (simp add: matchAllFrom_skip)
  also have "\<dots> = matchAllFrom dataRegex (Suc i + length xs) ys"
    using Cons.prems by (intro Cons.IH) auto
  finally show ?case by simp
qed

subsection \<open>What a match says about the input\<close>

lemma Seq_nonempty:
  "matches (Seq r1 r2) i inp g \<noteq> [] \<longleftrightarrow>
   (\<exists>(n1, g1) \<in> set (matches r1 i inp g). matches r2 (i + n1) (drop n1 inp) g1 \<noteq> [])"
  by (fastforce simp: matches.simps)

lemma Cls_Seq_nonempty:
  "matches (Seq (Cls c) r) i inp g \<noteq> [] \<longleftrightarrow>
   (\<exists>x xs. inp = x # xs \<and> inClass c x \<and> matches r (Suc i) xs g \<noteq> [])"
  by (cases inp) (auto simp: matches.simps)

lemma in_Cls_Seq:
  "(n, g') \<in> set (matches (Seq (Cls c) r) i inp g) \<longleftrightarrow>
   (\<exists>x xs m. inp = x # xs \<and> inClass c x \<and> (m, g') \<in> set (matches r (Suc i) xs g) \<and> n = Suc m)"
  by (cases inp) (auto simp: matches.simps)

lemma in_Plus:
  "(n, g') \<in> set (matches (Plus c) i inp g) \<longleftrightarrow>
   1 \<le> n \<and> n \<le> length (takeWhile (inClass c) inp) \<and> g' = g"
  by (auto simp: matches.simps)

lemma in_Star:
  "(n, g') \<in> set (matches (Star c) i inp g) \<longleftrightarrow>
   n \<le> length (takeWhile (inClass c) inp) \<and> g' = g"
  by (auto simp: matches.simps)

lemma in_Cls:
  "(n, g') \<in> set (matches (Cls c) i inp g) \<longleftrightarrow>
   (\<exists>x xs. inp = x # xs \<and> inClass c x) \<and> n = 1 \<and> g' = g"
  by (auto simp: matches.simps split: list.splits)

lemma in_Named:
  "(n, g') \<in> set (matches (Named nm r) i inp g) \<longleftrightarrow>
   (\<exists>g''. (n, g'') \<in> set (matches r i inp g) \<and> g' = setGroup nm (take n inp) g'')"
  by (auto simp: matches.simps)

lemma take_run:
  "n \<le> length (takeWhile P xs) \<Longrightarrow> list_all P (take n xs)"
proof -
  assume n: "n \<le> length (takeWhile P xs)"
  have "set (take n xs) \<subseteq> set (take (length (takeWhile P xs)) xs)"
    using n by (rule set_take_subset_set_take)
  then have "set (take n xs) \<subseteq> set (takeWhile P xs)"
    by (simp add: takeWhile_eq_take [symmetric])
  then show ?thesis
    by (auto simp: list_all_iff dest: set_takeWhileD)
qed

lemma inv_property:
  assumes "matches propertyPart i inp g \<noteq> []"
  shows "\<exists>tok after. inp = tok @ after \<and> tok \<noteq> [] \<and> list_all (\<lambda>c. \<not> isWhiteSpace c) tok
           \<and> (after = [] \<or> isWhiteSpace (hd after))"
proof -
  let ?tok = "takeWhile (\<lambda>c. \<not> isWhiteSpace c) inp"
  let ?after = "dropWhile (\<lambda>c. \<not> isWhiteSpace c) inp"
  have cls: "inClass NotSpace = (\<lambda>c. \<not> isWhiteSpace c)" by (rule ext) simp
  from assms have "?tok \<noteq> []"
    by (auto simp: propertyPart_def matches.simps cls)
  moreover have "list_all (\<lambda>c. \<not> isWhiteSpace c) ?tok"
    by (auto simp: list_all_iff dest: set_takeWhileD)
  moreover have "?after = [] \<or> isWhiteSpace (hd ?after)"
    using hd_dropWhile [of "\<lambda>c. \<not> isWhiteSpace c" inp] by auto
  moreover have "inp = ?tok @ ?after" by simp
  ultimately show ?thesis by blast
qed

lemma inv_separator:
  assumes "matches separatorPart i inp g \<noteq> []"
  shows "\<exists>ws1 ws2 tok after. inp = ws1 @ 0x3B # ws2 @ tok @ after
           \<and> list_all isWhiteSpace ws1 \<and> list_all isWhiteSpace ws2
           \<and> tok \<noteq> [] \<and> list_all (\<lambda>c. \<not> isWhiteSpace c) tok
           \<and> (after = [] \<or> isWhiteSpace (hd after))"
proof -
  have cls: "inClass Space = isWhiteSpace" by (rule ext) simp
  from assms obtain n1 g1 where n1: "n1 \<le> length (takeWhile isWhiteSpace inp)"
    and r1: "matches (Seq (Cls (Chr 0x3B)) (Seq (Star Space) propertyPart)) (i + n1) (drop n1 inp) g1 \<noteq> []"
    unfolding separatorPart_def Seq_nonempty [of "Star Space"] by (auto simp: in_Star cls)
  from r1 obtain y where y: "drop n1 inp = 0x3B # y"
    and r2: "matches (Seq (Star Space) propertyPart) (i + n1 + 1) y g1 \<noteq> []"
    unfolding Cls_Seq_nonempty by auto
  from r2 obtain n2 g2 where n2: "n2 \<le> length (takeWhile isWhiteSpace y)"
    and r3: "matches propertyPart (i + n1 + 1 + n2) (drop n2 y) g2 \<noteq> []"
    unfolding Seq_nonempty [of "Star Space"] by (auto simp: in_Star cls)
  from inv_property [OF r3] obtain tok after where ta: "drop n2 y = tok @ after" "tok \<noteq> []"
    "list_all (\<lambda>c. \<not> isWhiteSpace c) tok" "after = [] \<or> isWhiteSpace (hd after)"
    by blast
  have "inp = take n1 inp @ drop n1 inp" by simp
  also have "drop n1 inp = 0x3B # take n2 y @ drop n2 y" using y by simp
  finally have "inp = take n1 inp @ 0x3B # take n2 y @ tok @ after"
    using ta(1) by simp
  moreover have "list_all isWhiteSpace (take n1 inp)" using n1 by (rule take_run)
  moreover have "list_all isWhiteSpace (take n2 y)" using n2 by (rule take_run)
  ultimately show ?thesis using ta(2-4) by blast
qed

lemma inv_range_sep:
  assumes "matches (Seq rangePart separatorPart) i inp g \<noteq> []"
  shows "\<exists>he ws1 ws2 tok after.
           inp = (case he of None \<Rightarrow> [] | Some e \<Rightarrow> str ''..'' @ e) @ ws1 @ 0x3B # ws2 @ tok @ after
           \<and> (case he of None \<Rightarrow> True | Some e \<Rightarrow> e \<noteq> [] \<and> list_all isHexDigit e)
           \<and> list_all isWhiteSpace ws1 \<and> list_all isWhiteSpace ws2
           \<and> tok \<noteq> [] \<and> list_all (\<lambda>c. \<not> isWhiteSpace c) tok
           \<and> (after = [] \<or> isWhiteSpace (hd after))"
proof -
  have cls: "inClass HexDigitI = isHexDigit" by (rule ext) simp
  from assms obtain n1 g1 where m1: "(n1, g1) \<in> set (matches rangePart i inp g)"
    and r1: "matches separatorPart (i + n1) (drop n1 inp) g1 \<noteq> []"
    unfolding Seq_nonempty by auto
  from m1 consider (skip) "n1 = 0"
    | (range) "(n1, g1) \<in> set (matches (Seq (Cls (Chr 0x2E)) (Seq (Cls (Chr 0x2E))
                  (Named G_codePointEnd (Plus HexDigitI)))) i inp g)"
    by (auto simp: rangePart_def matches.simps(5,8))
  then show ?thesis
  proof cases
    case skip
    with r1 inv_separator [of i inp g1] obtain ws1 ws2 tok after where
      "inp = ws1 @ 0x3B # ws2 @ tok @ after" "list_all isWhiteSpace ws1" "list_all isWhiteSpace ws2"
      "tok \<noteq> []" "list_all (\<lambda>c. \<not> isWhiteSpace c) tok" "after = [] \<or> isWhiteSpace (hd after)"
      by auto
    then show ?thesis
      by (intro exI [of _ None] exI [of _ ws1] exI [of _ ws2] exI [of _ tok] exI [of _ after]) simp
  next
    case range
    then obtain z k where z: "inp = 0x2E # 0x2E # z" and k: "1 \<le> k" "k \<le> length (takeWhile isHexDigit z)"
      and n1: "n1 = 2 + k"
      by (auto simp: in_Cls_Seq in_Named in_Plus cls)
    from r1 have "matches separatorPart (i + n1) (drop k z) g1 \<noteq> []"
      by (simp add: z n1)
    from inv_separator [OF this] obtain ws1 ws2 tok after where d:
      "drop k z = ws1 @ 0x3B # ws2 @ tok @ after" "list_all isWhiteSpace ws1" "list_all isWhiteSpace ws2"
      "tok \<noteq> []" "list_all (\<lambda>c. \<not> isWhiteSpace c) tok" "after = [] \<or> isWhiteSpace (hd after)"
      by blast
    have "z = take k z @ drop k z" by simp
    then have "inp = (str ''..'' @ take k z) @ ws1 @ 0x3B # ws2 @ tok @ after"
      using d(1) by (simp add: z str_def)
    moreover have "list_all isHexDigit (take k z)" using k(2) by (rule take_run)
    moreover have "take k z \<noteq> []" using k by (cases z) auto
    ultimately show ?thesis
      using d(2-6)
      by (intro exI [of _ "Some (take k z)"] exI [of _ ws1] exI [of _ ws2] exI [of _ tok] exI [of _ after]) simp
  qed
qed

lemma inv_recordPart:
  assumes "matches recordPart i inp g \<noteq> []"
  shows "\<exists>hs he ws1 ws2 tok after.
           inp = recordLine hs he ws1 ws2 tok @ after \<and> wellFormed hs he ws1 ws2 tok
           \<and> (after = [] \<or> isWhiteSpace (hd after))"
proof -
  have cls: "inClass HexDigitI = isHexDigit" by (rule ext) simp
  from assms obtain n g1 where n: "1 \<le> n" "n \<le> length (takeWhile isHexDigit inp)"
    and r: "matches (Seq rangePart separatorPart) (i + n) (drop n inp) g1 \<noteq> []"
    unfolding recordPart_def Seq_nonempty [of "Named G_codePointStart (Plus HexDigitI)"]
    by (auto simp: in_Named in_Plus cls)
  from inv_range_sep [OF r] obtain he ws1 ws2 tok after where d:
    "drop n inp = (case he of None \<Rightarrow> [] | Some e \<Rightarrow> str ''..'' @ e) @ ws1 @ 0x3B # ws2 @ tok @ after"
    "case he of None \<Rightarrow> True | Some e \<Rightarrow> e \<noteq> [] \<and> list_all isHexDigit e"
    "list_all isWhiteSpace ws1" "list_all isWhiteSpace ws2"
    "tok \<noteq> []" "list_all (\<lambda>c. \<not> isWhiteSpace c) tok" "after = [] \<or> isWhiteSpace (hd after)"
    by blast
  have "inp = take n inp @ drop n inp" by simp
  then have "inp = recordLine (take n inp) he ws1 ws2 tok @ after"
    using d(1) by (simp add: recordLine_def str_def)
  moreover have "list_all isHexDigit (take n inp)" using n(2) by (rule take_run)
  moreover have "take n inp \<noteq> []" using n by (cases inp) auto
  ultimately have "inp = recordLine (take n inp) he ws1 ws2 tok @ after
      \<and> wellFormed (take n inp) he ws1 ws2 tok \<and> (after = [] \<or> isWhiteSpace (hd after))"
    using d(2-7) by (simp add: wellFormed_def)
  then show ?thesis by blast
qed

subsection \<open>Only a dangling row runs into the next line\<close>

lemma dropWhile_run:
  "list_all P xs \<Longrightarrow> ys = [] \<or> \<not> P (hd ys) \<Longrightarrow> dropWhile P (xs @ ys) = ys"
proof (induction xs)
  case Nil
  then show ?case by (cases ys) auto
next
  case (Cons x xs)
  then show ?case by simp
qed

lemma dropWhile_all: "list_all P xs \<Longrightarrow> dropWhile P xs = []"
  by (simp add: list_all_iff)

lemma afterRange_skip:
  "y = [] \<or> hd y \<noteq> 0x2E \<Longrightarrow> afterRange y = y"
  by (cases y) (auto simp: afterRange_def split: list.splits)

lemma afterRange_range:
  assumes "e \<noteq> []" "list_all isHexDigit e" "y = [] \<or> \<not> isHexDigit (hd y)"
  shows "afterRange (str ''..'' @ e @ y) = y"
proof -
  from assms(1) obtain c z where e: "e = c # z" by (cases e) auto
  with assms(2) have c: "isHexDigit c" and z: "list_all isHexDigit z" by simp_all
  have "dropWhile isHexDigit (z @ y) = y"
    using z assms(3) by (rule dropWhile_run)
  then show ?thesis
    by (simp add: afterRange_def str_def e c)
qed

lemma dangling_shape:
  assumes hs: "hs \<noteq> []" "list_all isHexDigit hs"
    and he: "case he of None \<Rightarrow> True | Some e \<Rightarrow> e \<noteq> [] \<and> list_all isHexDigit e"
    and y: "list_all isWhiteSpace y \<or> (\<exists>ws1 w. y = ws1 @ 0x3B # w \<and> list_all isWhiteSpace ws1 \<and> list_all isWhiteSpace w)"
  shows "dangling (hs @ (case he of None \<Rightarrow> [] | Some e \<Rightarrow> str ''..'' @ e) @ y)"
proof -
  let ?rng = "case he of None \<Rightarrow> [] | Some e \<Rightarrow> str ''..'' @ e"
  have hy: "y = [] \<or> (\<not> isHexDigit (hd y) \<and> hd y \<noteq> 0x2E)"
    using y
  proof
    assume "list_all isWhiteSpace y"
    then show ?thesis by (cases y) (auto simp: not_hex_ws not_ws_dot)
  next
    assume "\<exists>ws1 w. y = ws1 @ 0x3B # w \<and> list_all isWhiteSpace ws1 \<and> list_all isWhiteSpace w"
    then obtain ws1 w where "y = ws1 @ 0x3B # w" "list_all isWhiteSpace ws1" by blast
    then show ?thesis by (cases ws1) (auto simp: not_hex_ws not_ws_dot not_hex_semi)
  qed
  have hd_rng: "?rng @ y = [] \<or> \<not> isHexDigit (hd (?rng @ y))"
    using hy by (cases he) (auto simp: str_def not_hex_dot)
  have 1: "dropWhile isHexDigit (hs @ ?rng @ y) = ?rng @ y"
    using hs(2) hd_rng by (rule dropWhile_run)
  have 2: "afterRange (?rng @ y) = y"
  proof (cases he)
    case None
    then show ?thesis using hy by (auto simp: afterRange_skip)
  next
    case (Some e)
    with he have "e \<noteq> []" "list_all isHexDigit e" by simp_all
    then show ?thesis using hy Some afterRange_range [of e y] by auto
  qed
  have 3: "case dropWhile isWhiteSpace y of [] \<Rightarrow> True | c # r \<Rightarrow> c = 0x3B \<and> dropWhile isWhiteSpace r = []"
    using y
  proof
    assume "list_all isWhiteSpace y"
    then show ?thesis by (simp add: dropWhile_all)
  next
    assume "\<exists>ws1 w. y = ws1 @ 0x3B # w \<and> list_all isWhiteSpace ws1 \<and> list_all isWhiteSpace w"
    then obtain ws1 w where w: "y = ws1 @ 0x3B # w" "list_all isWhiteSpace ws1" "list_all isWhiteSpace w"
      by blast
    have "dropWhile isWhiteSpace (ws1 @ 0x3B # w) = 0x3B # w"
      using w(2) by (rule dropWhile_run) (simp add: not_ws_semi)
    then show ?thesis using w by (simp add: dropWhile_all list_all_iff)
  qed
  have "case hs @ ?rng @ y of [] \<Rightarrow> False | c # _ \<Rightarrow> isHexDigit c"
    using hs by (cases hs) simp_all
  then show ?thesis
    unfolding dangling_def 1 2 using 3 by simp
qed

lemma hex_not_nl: "isHexDigit c \<Longrightarrow> c \<noteq> 0x0A"
  using not_hex_nl by auto

lemma takeWhile_ws_sub: "list_all isWhiteSpace ws \<Longrightarrow> list_all isWhiteSpace (takeWhile P ws)"
  by (auto simp: list_all_iff dest: set_takeWhileD)

lemma cut_at_line_feed:
  assumes wf: "wellFormed hs he ws1 ws2 tok"
    and eq: "recordLine hs he ws1 ws2 tok = l @ 0x0A # us" and nl: "0x0A \<notin> set l"
  shows "dangling l"
proof -
  let ?P = "\<lambda>c. c \<noteq> (0x0A :: code_unit)"
  let ?rng = "case he of None \<Rightarrow> [] | Some e \<Rightarrow> str ''..'' @ e"
  from wf have hs: "hs \<noteq> []" "list_all isHexDigit hs"
    and he: "case he of None \<Rightarrow> True | Some e \<Rightarrow> e \<noteq> [] \<and> list_all isHexDigit e"
    and ws: "list_all isWhiteSpace ws1" "list_all isWhiteSpace ws2"
    and tok: "list_all (\<lambda>c. \<not> isWhiteSpace c) tok"
    by (simp_all add: wellFormed_def)
  have "takeWhile ?P (l @ 0x0A # us) = l"
    using nl by (intro takeWhile_run) (auto simp: list_all_iff)
  then have l: "l = takeWhile ?P (l @ 0x0A # us)" by simp
  have Phs: "\<forall>c \<in> set hs. ?P c"
    using hs(2) by (auto simp: list_all_iff dest: hex_not_nl)
  have Prng: "\<forall>c \<in> set ?rng. ?P c"
    using he by (cases he) (auto simp: list_all_iff str_def dest: hex_not_nl)
  have Ptok: "\<forall>c \<in> set tok. ?P c"
    using tok ws_nl by (auto simp: list_all_iff)
  have line: "recordLine hs he ws1 ws2 tok = hs @ ?rng @ ws1 @ 0x3B # ws2 @ tok"
    by (simp add: recordLine_def str_def)
  have t1: "takeWhile ?P (hs @ X) = hs @ takeWhile ?P X" for X
    using Phs by (intro takeWhile_append2) simp
  have t2: "takeWhile ?P (?rng @ X) = ?rng @ takeWhile ?P X" for X
    using Prng by (intro takeWhile_append2) simp
  have "takeWhile ?P (recordLine hs he ws1 ws2 tok)
          = hs @ ?rng @ takeWhile ?P (ws1 @ 0x3B # ws2 @ tok)"
    unfolding line by (simp only: t1 t2)
  with l have pre: "l = hs @ ?rng @ takeWhile ?P (ws1 @ 0x3B # ws2 @ tok)"
    unfolding eq [symmetric] by simp
  show ?thesis
  proof (cases "0x0A \<in> set ws1")
    case True
    then have "takeWhile ?P (ws1 @ 0x3B # ws2 @ tok) = takeWhile ?P ws1"
      by (intro takeWhile_append1 [of "0x0A"]) simp_all
    with pre have "l = hs @ ?rng @ takeWhile ?P ws1" by simp
    moreover have "list_all isWhiteSpace (takeWhile ?P ws1)"
      using ws(1) by (rule takeWhile_ws_sub)
    ultimately show ?thesis
      using dangling_shape [OF hs he, of "takeWhile ?P ws1"] by simp
  next
    case False
    then have "takeWhile ?P (ws1 @ X) = ws1 @ takeWhile ?P X" for X
      by (intro takeWhile_append2) auto
    then have 1: "takeWhile ?P (ws1 @ 0x3B # ws2 @ tok) = ws1 @ 0x3B # takeWhile ?P (ws2 @ tok)"
      by simp
    show ?thesis
    proof (cases "0x0A \<in> set ws2")
      case True
      then have "takeWhile ?P (ws2 @ tok) = takeWhile ?P ws2"
        by (intro takeWhile_append1 [of "0x0A"]) simp_all
      with pre 1 have "l = hs @ ?rng @ ws1 @ 0x3B # takeWhile ?P ws2" by simp
      moreover have "list_all isWhiteSpace (takeWhile ?P ws2)"
        using ws(2) by (rule takeWhile_ws_sub)
      ultimately show ?thesis
        using dangling_shape [OF hs he, of "ws1 @ 0x3B # takeWhile ?P ws2"] ws(1) by auto
    next
      case False
      then have "\<forall>c \<in> set (ws2 @ tok). ?P c"
        using Ptok by auto
      then have "takeWhile ?P (ws2 @ tok) = ws2 @ tok"
        by (simp only: takeWhile_eq_all_conv)
      with pre 1 have "l = recordLine hs he ws1 ws2 tok" by (simp add: line)
      with eq show ?thesis by simp
    qed
  qed
qed

lemma harmless_fail:
  assumes nl: "0x0A \<notin> set l" and rest: "rest = [] \<or> hd rest = 0x0A"
    and m: "matches recordPart j (l @ rest) g \<noteq> []"
  shows "matchesPattern l \<or> dangling l"
proof -
  from inv_recordPart [OF m] obtain hs he ws1 ws2 tok after where
    eq: "l @ rest = recordLine hs he ws1 ws2 tok @ after" and wf: "wellFormed hs he ws1 ws2 tok"
    and af: "after = [] \<or> isWhiteSpace (hd after)" by blast
  from eq obtain vs where
    "l = recordLine hs he ws1 ws2 tok @ vs \<and> vs @ rest = after
     \<or> l @ vs = recordLine hs he ws1 ws2 tok \<and> rest = vs @ after"
    by (auto simp: append_eq_append_conv2)
  then consider (inside) us where "l = recordLine hs he ws1 ws2 tok @ us" "us @ rest = after"
    | (beyond) us where "l @ us = recordLine hs he ws1 ws2 tok" "rest = us @ after" "us \<noteq> []"
    by (cases "vs = []") auto
  then show ?thesis
  proof cases
    case inside
    have "us = [] \<or> isWhiteSpace (hd us)"
      using af inside(2) by (cases us) auto
    from firstMatch_line_start [OF wf this] show ?thesis
      by (simp add: matchesPattern_def inside(1))
  next
    case beyond
    with rest obtain us' where "us = 0x0A # us'"
      by (cases us) auto
    with beyond(1) have "recordLine hs he ws1 ws2 tok = l @ 0x0A # us'" by simp
    from cut_at_line_feed [OF wf this nl] show ?thesis ..
  qed
qed

subsection \<open>Scanning a text line by line\<close>

lemma data_from: "data t = matchAllFrom dataRegex 0 t"
  by (simp add: data_def matchAll_def)

lemma valid_decomp:
  assumes "0x0A \<notin> set l" "matchesPattern l"
  shows "\<exists>hs he ws1 ws2 tok after.
           l = recordLine hs he ws1 ws2 tok @ after \<and> wellFormed hs he ws1 ws2 tok
           \<and> (after = [] \<or> isWhiteSpace (hd after))"
proof -
  from assms(1) have "l = [] \<or> hd l \<noteq> 0x0A" by (cases l) auto
  then have "matches dataRegex 0 l noGroups = matches recordPart 0 l noGroups"
    by (simp add: dataRegex_other)
  with assms(2) have "matches recordPart 0 l noGroups \<noteq> []"
    by (simp add: matchesPattern_def firstMatch_def firstOf_None)
  then show ?thesis by (rule inv_recordPart)
qed

lemma recordLine_length: "wellFormed hs he ws1 ws2 tok \<Longrightarrow> 1 \<le> length (recordLine hs he ws1 ws2 tok)"
  by (cases hs) (simp_all add: wellFormed_def recordLine_def)

lemma after_more:
  "after = [] \<or> isWhiteSpace (hd after) \<Longrightarrow> rest = [] \<or> hd rest = 0x0A \<Longrightarrow>
   after @ rest = [] \<or> isWhiteSpace (hd (after @ rest))"
  by (cases after) (auto simp: ws_nl)

lemma line_scan_start:
  assumes wf: "wellFormed hs he ws1 ws2 tok" and af: "after = [] \<or> isWhiteSpace (hd after)"
    and nl: "0x0A \<notin> set after" and rest: "rest = [] \<or> hd rest = 0x0A"
  shows "matchAllFrom dataRegex 0 (recordLine hs he ws1 ws2 tok @ after @ rest)
           = \<lparr>codePointStart = Some hs, codePointEnd = he, property = Some tok\<rparr>
             # matchAllFrom dataRegex (length (recordLine hs he ws1 ws2 tok @ after)) rest"
proof -
  let ?line = "recordLine hs he ws1 ws2 tok"
  have "matchAllFrom dataRegex 0 (?line @ after @ rest)
          = \<lparr>codePointStart = Some hs, codePointEnd = he, property = Some tok\<rparr>
            # matchAllFrom dataRegex (0 + length ?line) (drop (length ?line) (?line @ after @ rest))"
    using recordLine_length [OF wf]
    by (intro matchAllFrom_emit firstMatch_line_start [OF wf after_more [OF af rest]]) simp_all
  moreover have "matchAllFrom dataRegex (length ?line) (after @ rest)
                   = matchAllFrom dataRegex (length ?line + length after) rest"
    using recordLine_length [OF wf] nl by (intro matchAllFrom_skip_run) auto
  ultimately show ?thesis by simp
qed

lemma line_scan_nl:
  assumes wf: "wellFormed hs he ws1 ws2 tok" and af: "after = [] \<or> isWhiteSpace (hd after)"
    and nl: "0x0A \<notin> set after" and rest: "rest = [] \<or> hd rest = 0x0A"
  shows "matchAllFrom dataRegex i (0x0A # recordLine hs he ws1 ws2 tok @ after @ rest)
           = \<lparr>codePointStart = Some hs, codePointEnd = he, property = Some tok\<rparr>
             # matchAllFrom dataRegex (Suc i + length (recordLine hs he ws1 ws2 tok @ after)) rest"
proof -
  let ?line = "recordLine hs he ws1 ws2 tok"
  have "matchAllFrom dataRegex i (0x0A # ?line @ after @ rest)
          = \<lparr>codePointStart = Some hs, codePointEnd = he, property = Some tok\<rparr>
            # matchAllFrom dataRegex (i + Suc (length ?line))
                (drop (Suc (length ?line)) (0x0A # ?line @ after @ rest))"
    by (intro matchAllFrom_emit firstMatch_line_nl [OF wf after_more [OF af rest]]) simp_all
  moreover have "matchAllFrom dataRegex (i + Suc (length ?line)) (after @ rest)
                   = matchAllFrom dataRegex (i + Suc (length ?line) + length after) rest"
    using nl by (intro matchAllFrom_skip_run) simp_all
  ultimately show ?thesis by (simp add: add.assoc)
qed

lemma noise_fail:
  assumes "\<not> matchesPattern l" "\<not> dangling l" "0x0A \<notin> set l" "rest = [] \<or> hd rest = 0x0A"
  shows "matches recordPart j (l @ rest) g = []"
  using harmless_fail [OF assms(3,4), of j g] assms(1,2) by blast

lemma noise_scan_nl:
  assumes "\<not> matchesPattern l" "\<not> dangling l" "0x0A \<notin> set l" "rest = [] \<or> hd rest = 0x0A"
  shows "matchAllFrom dataRegex i (0x0A # l @ rest) = matchAllFrom dataRegex (Suc i + length l) rest"
proof -
  have "firstMatch dataRegex i (0x0A # l @ rest) = None"
    by (simp add: firstMatch_def dataRegex_nl noise_fail [OF assms])
  then have "matchAllFrom dataRegex i (0x0A # l @ rest) = matchAllFrom dataRegex (Suc i) (l @ rest)"
    by (rule matchAllFrom_skip)
  also have "\<dots> = matchAllFrom dataRegex (Suc i + length l) rest"
    using assms(3) by (intro matchAllFrom_skip_run) simp_all
  finally show ?thesis .
qed

lemma noise_scan_start:
  assumes "\<not> matchesPattern l" "\<not> dangling l" "0x0A \<notin> set l" "rest = [] \<or> hd rest = 0x0A"
    and "l \<noteq> []"
  shows "matchAllFrom dataRegex 0 (l @ rest) = matchAllFrom dataRegex (length l) rest"
proof -
  from assms(5) obtain c cs where l: "l = c # cs" by (cases l) auto
  have "hd (l @ rest) \<noteq> 0x0A"
    using assms(3) by (simp add: l)
  then have "firstMatch dataRegex 0 (l @ rest) = None"
    by (simp add: firstMatch_def dataRegex_other noise_fail [OF assms(1-4)])
  then have "matchAllFrom dataRegex 0 (c # cs @ rest) = matchAllFrom dataRegex (Suc 0) (cs @ rest)"
    by (intro matchAllFrom_skip) (simp add: l)
  also have "\<dots> = matchAllFrom dataRegex (Suc 0 + length cs) rest"
    using assms(3) by (intro matchAllFrom_skip_run) (simp_all add: l)
  finally show ?thesis by (simp add: l)
qed

lemma data_noise:
  assumes "\<not> matchesPattern l" "\<not> dangling l" "0x0A \<notin> set l"
  shows "data l = []"
proof (cases "l = []")
  case True
  then show ?thesis by (simp add: data_from matchAllFrom_Nil)
next
  case False
  from noise_scan_start [OF assms _ False, of "[]"] show ?thesis
    by (simp add: data_from matchAllFrom_Nil)
qed

lemma data_line:
  assumes "wellFormed hs he ws1 ws2 tok" "after = [] \<or> isWhiteSpace (hd after)" "0x0A \<notin> set after"
  shows "data (recordLine hs he ws1 ws2 tok @ after)
           = [\<lparr>codePointStart = Some hs, codePointEnd = he, property = Some tok\<rparr>]"
  using line_scan_start [OF assms, of "[]"] by (simp add: data_from matchAllFrom_Nil)

lemma ok_scan_nl:
  assumes "okLine l" "rest = [] \<or> hd rest = 0x0A"
  shows "matchAllFrom dataRegex i (0x0A # l @ rest)
           = data l @ matchAllFrom dataRegex (Suc i + length l) rest"
proof (cases "matchesPattern l")
  case False
  with assms show ?thesis by (simp add: okLine_def noise_scan_nl data_noise)
next
  case True
  with assms(1) have "0x0A \<notin> set l" "matchesPattern l" by (simp_all add: okLine_def)
  from valid_decomp [OF this] obtain hs he ws1 ws2 tok after where
    l: "l = recordLine hs he ws1 ws2 tok @ after" and wf: "wellFormed hs he ws1 ws2 tok"
    and af: "after = [] \<or> isWhiteSpace (hd after)" by blast
  have nl: "0x0A \<notin> set after" using \<open>0x0A \<notin> set l\<close> by (simp add: l)
  show ?thesis
    using line_scan_nl [OF wf af nl assms(2), of i] data_line [OF wf af nl] by (simp add: l)
qed

lemma ok_scan_start:
  assumes "okLine l" "rest = [] \<or> hd rest = 0x0A" "l \<noteq> []"
  shows "matchAllFrom dataRegex 0 (l @ rest) = data l @ matchAllFrom dataRegex (length l) rest"
proof (cases "matchesPattern l")
  case False
  with assms show ?thesis by (simp add: okLine_def noise_scan_start data_noise)
next
  case True
  with assms(1) have "0x0A \<notin> set l" "matchesPattern l" by (simp_all add: okLine_def)
  from valid_decomp [OF this] obtain hs he ws1 ws2 tok after where
    l: "l = recordLine hs he ws1 ws2 tok @ after" and wf: "wellFormed hs he ws1 ws2 tok"
    and af: "after = [] \<or> isWhiteSpace (hd after)" by blast
  have nl: "0x0A \<notin> set after" using \<open>0x0A \<notin> set l\<close> by (simp add: l)
  show ?thesis
    using line_scan_start [OF wf af nl assms(2)] data_line [OF wf af nl] by (simp add: l)
qed

lemma scan_lines_nl:
  "\<forall>l \<in> set ls. okLine l \<Longrightarrow> ls \<noteq> [] \<Longrightarrow>
   matchAllFrom dataRegex i (0x0A # join [0x0A] ls) = concat (map data ls)"
proof (induction ls arbitrary: i)
  case Nil
  then show ?case by simp
next
  case (Cons l ls)
  show ?case
  proof (cases ls)
    case Nil
    then show ?thesis
      using ok_scan_nl [of l "[]" i] Cons.prems by (simp add: matchAllFrom_Nil)
  next
    case (Cons l' ls')
    have j: "join [0x0A] (l # ls) = l @ 0x0A # join [0x0A] ls"
      by (simp add: Cons)
    have "matchAllFrom dataRegex i (0x0A # l @ 0x0A # join [0x0A] ls)
            = data l @ matchAllFrom dataRegex (Suc i + length l) (0x0A # join [0x0A] ls)"
      using Cons.prems by (intro ok_scan_nl) simp_all
    also have "matchAllFrom dataRegex (Suc i + length l) (0x0A # join [0x0A] ls) = concat (map data ls)"
      using Cons.prems Cons by (intro Cons.IH) simp_all
    finally show ?thesis by (simp add: j)
  qed
qed

lemma scan_lines:
  assumes "\<forall>l \<in> set ls. okLine l"
  shows "data (join [0x0A] ls) = concat (map data ls)"
proof (cases ls)
  case Nil
  then show ?thesis by (simp add: data_from matchAllFrom_Nil)
next
  case (Cons l ls')
  show ?thesis
  proof (cases ls')
    case Nil
    then show ?thesis by (simp add: Cons)
  next
    case (Cons l'' ls'')
    have j: "join [0x0A] (l # ls') = l @ 0x0A # join [0x0A] ls'"
      by (simp add: Cons)
    have rest: "matchAllFrom dataRegex k (0x0A # join [0x0A] ls') = concat (map data ls')" for k
      using assms Cons by (intro scan_lines_nl) (simp_all add: \<open>ls = l # ls'\<close>)
    show ?thesis
    proof (cases "l = []")
      case True
      have "data [] = []" by (simp add: data_from matchAllFrom_Nil)
      then show ?thesis
        unfolding \<open>ls = l # ls'\<close> j
        by (simp add: True data_from [of "0x0A # join [0x0A] ls'"] rest)
    next
      case False
      have "matchAllFrom dataRegex 0 (l @ 0x0A # join [0x0A] ls')
              = data l @ matchAllFrom dataRegex (length l) (0x0A # join [0x0A] ls')"
        using assms False by (intro ok_scan_start) (simp_all add: \<open>ls = l # ls'\<close>)
      then show ?thesis
        unfolding \<open>ls = l # ls'\<close> j
        by (simp add: data_from [of "l @ 0x0A # join [0x0A] ls'"] rest)
    qed
  qed
qed

lemma nl_str: "str ''\<newline>'' = [0x0A]"
  by (simp add: str_def)

lemma concat_data_filter:
  "\<forall>l \<in> set ls. \<not> matchesPattern l \<longrightarrow> data l = [] \<Longrightarrow>
   concat (map data (filter matchesPattern ls)) = concat (map data ls)"
  by (induction ls) auto

lemma not_hex_start_in_order:
  assumes "0x0A \<notin> set l" "l = [] \<or> \<not> isHexDigit (hd l)"
  shows "okLine l \<and> \<not> matchesPattern l"
proof -
  have "firstMatch dataRegex 0 l = None"
    using assms by (intro firstMatch_not_hex_start) (cases l, auto)
  moreover have "\<not> dangling l"
    using assms(2) by (cases l) (auto simp: dangling_def)
  ultimately show ?thesis
    using assms(1) by (simp add: okLine_def matchesPattern_def)
qed

subsection \<open>Tables\<close>

lemma isDouble_increment: "isDouble (increment cp)"
  by (cases cp) (simp_all add: increment_def isDouble_round, simp add: isDouble_def)

lemma forLoop_isDouble:
  "isDouble cp \<Longrightarrow> \<forall>x \<in> set acc. isDouble x \<Longrightarrow> forLoop cp cpEnd acc = Inr r \<Longrightarrow>
   \<forall>x \<in> set r. isDouble x"
proof (induction cp cpEnd acc rule: forLoop.induct)
  case (1 cp cpEnd acc)
  show ?case
  proof (cases "cp \<le> cpEnd")
    case False
    with "1.prems" show ?thesis by (simp add: forLoop_done)
  next
    case True
    with "1.prems"(3) have room: "\<not> 2 ^ 32 - 1 \<le> length acc"
      using forLoop_full [OF True, of acc] by auto
    with True "1.prems"(3) have "forLoop (increment cp) cpEnd (acc @ [cp]) = Inr r"
      by (simp add: forLoop_step)
    with "1.IH" [OF True room isDouble_increment] "1.prems"(1,2) show ?thesis by simp
  qed
qed

lemma reduce_isDouble:
  "\<forall>x \<in> set rs. doubles x \<Longrightarrow> \<forall>x \<in> set acc. isDouble x \<Longrightarrow> reduce acc rs = Inr r \<Longrightarrow>
   \<forall>x \<in> set r. isDouble x"
proof (induction rs arbitrary: acc)
  case Nil
  then show ?case by simp
next
  case (Cons x rs)
  from Cons.prems(3) obtain acc' where p: "pushRange acc x = Inr acc'" and q: "reduce acc' rs = Inr r"
    by (auto split: sum.splits)
  have "\<forall>y \<in> set acc'. isDouble y"
  proof (cases "(acc, x)" rule: pushRange.cases)
    case (1 cps s e)
    with p Cons.prems(1,2) show ?thesis
      by (auto dest: forLoop_isDouble [rotated 2])
  qed (use p Cons.prems(2) in auto)
  from Cons.IH [OF _ this q] Cons.prems(1) show ?case by simp
qed

lemma rangeList_finite: "x \<in> set (rangeList r) \<Longrightarrow> \<exists>n. x = enat n"
  by (cases r rule: rangeList.cases) auto

lemma expanded_exact:
  "expanded propertyName d = Inr a \<Longrightarrow> a = concat (map rangeList (ranges propertyName d))"
  unfolding expanded_def by (drule reduce_exact [OF ranges_doubles]) simp

lemma codePoints_exact:
  "codePoints propertyName d = Inr table \<Longrightarrow>
   table = sort (concat (map rangeList (ranges propertyName d)))"
  by (auto simp: codePoints_def split: sum.splits dest: expanded_exact)

lemma codePoints_within:
  assumes "withinLimits (ranges propertyName d)"
  shows "codePoints propertyName d = Inr (sort (concat (map rangeList (ranges propertyName d))))"
proof -
  from assms have "reduce [] (ranges propertyName d)
                     = Inr ([] @ concat (map rangeList (ranges propertyName d)))"
    unfolding withinLimits_def by (intro reduce_plain) simp_all
  then show ?thesis by (simp add: codePoints_def expanded_def)
qed

lemma codePoints_entries:
  assumes "codePoints propertyName d = Inr table" "cp \<in> set table"
  shows "\<exists>n. cp = enat n \<and> roundDouble n = enat n"
proof -
  from assms(1) obtain a where a: "expanded propertyName d = Inr a" and t: "table = sort a"
    by (auto simp: codePoints_def split: sum.splits)
  from assms(2) t have cp: "cp \<in> set a" by simp
  have "\<forall>x \<in> set a. isDouble x"
  proof (rule reduce_isDouble [OF ranges_doubles])
    show "\<forall>x \<in> set []. isDouble x" by simp
    show "reduce [] (ranges propertyName d) = Inr a" using a by (simp add: expanded_def)
  qed
  with cp have "isDouble cp" by simp
  moreover from expanded_exact [OF a] cp obtain n where "cp = enat n"
    by (auto dest: rangeList_finite)
  ultimately show ?thesis by (simp add: isDouble_def)
qed

lemma codePoints_absent:
  "\<forall>g \<in> set d. property g \<noteq> Some propertyName \<Longrightarrow> codePoints propertyName d = Inr []"
  by (simp add: codePoints_def expanded_def ranges_def filter_empty_conv [THEN iffD2])

lemma rangeList_disjoint: "\<not> overlap r r' \<Longrightarrow> set (rangeList r) \<inter> set (rangeList r') = {}"
proof (cases "(r, r')" rule: overlap.cases)
  case (1 s1 e1 s2 e2)
  assume no: "\<not> overlap r r'"
  show ?thesis
  proof (cases s1; cases e1; cases s2; cases e2)
    fix a b c d
    assume "s1 = enat a" "e1 = enat b" "s2 = enat c" "e2 = enat d"
    with 1 no show ?thesis
      by (auto simp: max_def min_def split: if_splits)
  qed (use 1 in simp_all)
qed (cases r rule: rangeList.cases; simp)+

lemma distinct_rangeList: "distinct (rangeList r)"
  by (cases r rule: rangeList.cases) (simp_all add: distinct_map inj_on_def)

lemma distinct_ranges: "nonOverlapping rs \<Longrightarrow> distinct (concat (map rangeList rs))"
proof (induction rs)
  case Nil
  then show ?case by simp
next
  case (Cons r rs)
  then have "\<forall>r' \<in> set rs. set (rangeList r) \<inter> set (rangeList r') = {}"
    by (simp add: rangeList_disjoint)
  with Cons show ?case
    by (auto simp: distinct_rangeList)
qed

lemma sort_unique: "sortContract xs ys \<longleftrightarrow> ys = sort xs"
  unfolding sortContract_def
  by (auto simp: properties_for_sort)

subsection \<open>Hexadecimal digits\<close>

declare digits16.simps [simp del]

lemma digit_cases:
  "d < 16 \<Longrightarrow> d = 0 \<or> d = 1 \<or> d = 2 \<or> d = 3 \<or> d = 4 \<or> d = 5 \<or> d = 6 \<or> d = 7
     \<or> d = 8 \<or> d = 9 \<or> d = 10 \<or> d = 11 \<or> d = 12 \<or> d = 13 \<or> d = 14 \<or> (d::nat) = 15"
  by arith

lemma upper_digitChar:
  assumes "d < 16"
  shows "isUpperHexDigit (upperUnit (digitChar d)) \<and> digitValue (upperUnit (digitChar d)) = d"
  using digit_cases [OF assms]
  by (elim disjE) (simp_all add: upperUnit_def digitChar_def digitValue_def isUpperHexDigit_def)

lemma hexValue_snoc: "hexValue (xs @ [c]) = 16 * hexValue xs + digitValue c"
  by (simp add: hexValue_def)

lemma upper_digits16:
  "list_all isUpperHexDigit (toUpperCase (digits16 n))
   \<and> hexValue (toUpperCase (digits16 n)) = n
   \<and> digits16 n \<noteq> []"
proof (induction n rule: digits16.induct)
  case (1 n)
  show ?case
  proof (cases "n < 16")
    case True
    then have eq: "digits16 n = [digitChar n]" by (subst digits16.simps) simp
    show ?thesis
      using upper_digitChar [OF True] by (simp add: hexValue_def eq toUpperCase_def)
  next
    case False
    then have eq: "digits16 n = digits16 (n div 16) @ [digitChar (n mod 16)]"
      by (subst digits16.simps) simp
    have m: "n mod 16 < 16" by simp
    have "toUpperCase (digits16 n)
            = toUpperCase (digits16 (n div 16)) @ [upperUnit (digitChar (n mod 16))]"
      by (simp add: eq toUpperCase_def)
    then show ?thesis
      using "1.IH" [OF False] upper_digitChar [OF m] by (simp add: hexValue_snoc eq)
  qed
qed

lemma toUpperCase_append: "toUpperCase (xs @ ys) = toUpperCase xs @ toUpperCase ys"
  by (simp add: toUpperCase_def)

lemma toUpperCase_zeros: "toUpperCase (replicate k 0x30) = replicate k 0x30"
  by (simp add: toUpperCase_def upperUnit_def)

lemma hexValue_zeros: "hexValue (replicate k 0x30 @ s) = hexValue s"
proof -
  have "foldl (\<lambda>acc c. 16 * acc + digitValue c) 0 (replicate k 0x30) = 0"
    by (induction k) (simp_all add: digitValue_def)
  then show ?thesis by (simp add: hexValue_def)
qed

lemma hexDigits_eq:
  "hexDigits (enat n) = replicate (4 - length (digits16 n)) 0x30 @ toUpperCase (digits16 n)"
  by (simp add: hexDigits_def toString16_def padStart_def toUpperCase_append toUpperCase_zeros)

lemma upper_is_hex: "isUpperHexDigit c \<Longrightarrow> isHexDigit c"
  by (auto simp: isUpperHexDigit_def isHexDigit_def)

lemma hexDigits_props:
  "4 \<le> length (hexDigits (enat n)) \<and> list_all isUpperHexDigit (hexDigits (enat n))
   \<and> hexValue (hexDigits (enat n)) = n"
proof -
  have "length (toUpperCase (digits16 n)) = length (digits16 n)"
    by (simp add: toUpperCase_def)
  then have "4 \<le> length (hexDigits (enat n))"
    by (simp add: hexDigits_eq)
  moreover have "list_all isUpperHexDigit (replicate k 0x30)" for k
    by (simp add: list_all_iff isUpperHexDigit_def)
  ultimately show ?thesis
    using upper_digits16 [of n] by (simp add: hexDigits_eq hexValue_zeros)
qed

lemma parseInt16_hexDigits: "parseInt16 (Some (hexDigits (enat n))) = Num (roundDouble n)"
proof -
  from hexDigits_props [of n]
  have "list_all isHexDigit (hexDigits (enat n))" "hexDigits (enat n) \<noteq> []"
    by (auto simp: list_all_iff upper_is_hex)
  then have tw: "takeWhile isHexDigit (hexDigits (enat n)) = hexDigits (enat n)"
    by (simp add: list_all_iff)
  show ?thesis
    using hexDigits_props [of n] \<open>hexDigits (enat n) \<noteq> []\<close> by (simp add: parseInt16_def tw)
qed

lemma digits16_length: "1 \<le> k \<Longrightarrow> n < 16 ^ k \<Longrightarrow> length (digits16 n) \<le> k"
proof (induction n arbitrary: k rule: digits16.induct)
  case (1 n)
  show ?case
  proof (cases "n < 16")
    case True
    then have "digits16 n = [digitChar n]" by (subst digits16.simps) simp
    with "1.prems" show ?thesis by simp
  next
    case False
    then have eq: "digits16 n = digits16 (n div 16) @ [digitChar (n mod 16)]"
      by (subst digits16.simps) simp
    from False "1.prems" obtain k' where k: "k = Suc k'"
      by (cases k) auto
    with False "1.prems" have "1 \<le> k'" by (cases k') auto
    moreover have "n div 16 < 16 ^ k'"
      using "1.prems"(2) by (simp add: k less_mult_imp_div_less mult.commute)
    ultimately have "length (digits16 (n div 16)) \<le> k'"
      using "1.IH" [OF False] by blast
    then show ?thesis by (simp add: eq k)
  qed
qed

lemma hexDigits_four: "n < 0x10000 \<Longrightarrow> length (hexDigits (enat n)) = 4"
proof -
  assume "n < 0x10000"
  then have "n < 16 ^ 4" by simp
  then have "length (digits16 n) \<le> 4" by (intro digits16_length) simp_all
  then show ?thesis by (simp add: hexDigits_eq toUpperCase_def)
qed

lemma replicate_two: "replicate 2 x = [x, x]"
  by (simp add: numeral_2_eq_2)

subsection \<open>Declarations and documents\<close>

lemma variablesRun_iff: "variablesRun targets text v \<longleftrightarrow> v = rustVariables targets text"
proof (induction targets arbitrary: v)
  case Nil
  show ?case by auto
next
  case (Cons t targets)
  obtain p n where t: "t = (p, n)" by (cases t)
  show ?case
    unfolding t by (auto simp: Cons.IH codePoints_def sort_unique split: sum.splits)
qed

lemma buildRun_iff: "buildRun targets text outcome \<longleftrightarrow> outcome = rustFile targets text"
  by (simp add: buildRun_def variablesRun_iff rustFile_def)

lemma rustVariable_text:
  "rustVariable rustTableName table =
     str ''pub(crate) static '' @ rustTableName @ str '': &[char] = &['' @
     join (str '','') (map (\<lambda>cp. [0x27, 0x5C] @ str ''u{'' @ hexDigits cp @ str ''}'' @ [0x27]) table)
     @ str ''];''"
proof -
  have "literal = (\<lambda>cp. [0x27, 0x5C] @ str ''u{'' @ hexDigits cp @ str ''}'' @ [0x27])"
    by (rule ext) (simp add: literal_def)
  moreover have "str '': &[char] = '' @ str ''&['' = str '': &[char] = &[''" "str '']'' @ str '';'' = str ''];''"
    by (simp_all add: str_def)
  ultimately show ?thesis
    by (simp add: rustVariable_def rustTable_def)
qed

lemma rustVariable_empty:
  "rustVariable rustTableName [] = str ''pub(crate) static '' @ rustTableName @ str '': &[char] = &[];''"
  by (simp add: rustVariable_def rustTable_def str_def)

lemma rustVariables_tables:
  "rustVariables targets text = Inr vs \<Longrightarrow>
   \<exists>tables. map (\<lambda>(propertyName, rustTableName). codePoints propertyName (data text)) targets
               = map Inr tables
     \<and> vs = map (\<lambda>((propertyName, rustTableName), table). rustVariable rustTableName table)
              (zip targets tables)"
proof (induction targets arbitrary: vs)
  case Nil
  then show ?case by simp
next
  case (Cons t targets)
  obtain p n where t: "t = (p, n)" by (cases t)
  from Cons.prems obtain cps vs' where c: "codePoints p (data text) = Inr cps"
    and r: "rustVariables targets text = Inr vs'" and vs: "vs = rustVariable n cps # vs'"
    by (auto simp: t split: sum.splits)
  from Cons.IH [OF r] obtain tables where
    "map (\<lambda>(propertyName, rustTableName). codePoints propertyName (data text)) targets = map Inr tables"
    "vs' = map (\<lambda>((propertyName, rustTableName), table). rustVariable rustTableName table) (zip targets tables)"
    by blast
  then show ?case
    by (intro exI [of _ "cps # tables"]) (simp add: t c vs)
qed

lemma rustVariables_within:
  "\<forall>(propertyName, rustTableName) \<in> set targets. withinLimits (ranges propertyName (data text)) \<Longrightarrow>
   \<exists>vs. rustVariables targets text = Inr vs"
proof (induction targets)
  case Nil
  then show ?case by simp
next
  case (Cons t targets)
  obtain p n where t: "t = (p, n)" by (cases t)
  from Cons.prems have "withinLimits (ranges p (data text))" by (simp add: t)
  from codePoints_within [OF this] Cons.IH Cons.prems show ?case
    by (auto simp: t)
qed

lemma rustVariables_member:
  "rustVariables targets text = Inr vs \<Longrightarrow> (p, n) \<in> set targets \<Longrightarrow>
   codePoints p (data text) = Inr table \<Longrightarrow> rustVariable n table \<in> set vs"
proof (induction targets arbitrary: vs)
  case Nil
  then show ?case by simp
next
  case (Cons t targets)
  obtain p' n' where t: "t = (p', n')" by (cases t)
  from Cons.prems(1) obtain cps vs' where c: "codePoints p' (data text) = Inr cps"
    and r: "rustVariables targets text = Inr vs'" and vs: "vs = rustVariable n' cps # vs'"
    by (auto simp: t split: sum.splits)
  show ?case
  proof (cases "(p, n) = (p', n')")
    case True
    with c Cons.prems(3) show ?thesis by (simp add: vs)
  next
    case False
    with Cons.prems(2) have "(p, n) \<in> set targets" by (auto simp: t)
    from Cons.IH [OF r this Cons.prems(3)] show ?thesis by (simp add: vs)
  qed
qed

lemma rustVariables_length: "rustVariables targets text = Inr vs \<Longrightarrow> length vs = length targets"
  by (induction targets arbitrary: vs) (auto split: sum.splits)

lemma join4: "join s [a, b, c, d] = a @ s @ b @ s @ c @ s @ d"
  by simp

lemma doc_comment_text:
  "OUTPUT_FILE_DOC_COMMENT =
     str ''//! This module implements the unicode lookup tables for identifier and pattern syntax.\<newline>'' @
     str ''//! Version: Unicode 14.0.0\<newline>'' @
     str ''//!\<newline>'' @
     str ''//! This file is generated by `boa_unicode/build_tables.js`. Please do not modify it directly.\<newline>'' @
     str ''//!\<newline>'' @
     str ''//! More information:\<newline>'' @
     str ''//!  - [Unicode'' @ [0xAE] @ str '' Standard Annex #44][uax44]\<newline>'' @
     str ''//!\<newline>'' @
     str ''//! [uax44]: http://unicode.org/reports/tr44''"
  by code_simp

subsection \<open>A line among the lines of a text\<close>

lemma wellFormed_matches:
  "wellFormed hs he ws1 ws2 tok \<Longrightarrow> after = [] \<or> isWhiteSpace (hd after) \<Longrightarrow>
   matchesPattern (recordLine hs he ws1 ws2 tok @ after)"
  by (simp add: matchesPattern_def firstMatch_line_start)

lemma data_split:
  assumes "\<forall>l \<in> set ls. okLine l" "k < length ls"
  shows "data (join [0x0A] ls)
           = concat (map data (take k ls)) @ data (ls ! k) @ concat (map data (drop (Suc k) ls))"
proof -
  have "concat (map data ls) = concat (map data (take k ls @ ls ! k # drop (Suc k) ls))"
    using assms(2) by (simp only: id_take_nth_drop [symmetric])
  with scan_lines [OF assms(1)] show ?thesis by simp
qed

lemma data_without:
  assumes "\<forall>l \<in> set ls. okLine l" "j < length ls" "data (ls ! j) = []"
  shows "data (join [0x0A] ls) = data (join [0x0A] (take j ls @ drop (Suc j) ls))"
proof -
  have "\<forall>l \<in> set (take j ls @ drop (Suc j) ls). okLine l"
    using assms(1) by (auto dest: in_set_takeD in_set_dropD)
  from scan_lines [OF this] data_split [OF assms(1,2)] assms(3) show ?thesis by simp
qed

lemma data_replace:
  assumes "\<forall>l \<in> set ls. okLine l" "k < length ls" "okLine l'" "data l' = data (ls ! k)"
  shows "data (join [0x0A] (ls[k := l'])) = data (join [0x0A] ls)"
proof -
  have "\<forall>l \<in> set (ls[k := l']). okLine l"
    using assms(1,3) by (auto dest: set_update_subset_insert [THEN subsetD])
  moreover have "k < length (ls[k := l'])" using assms(2) by simp
  ultimately have "data (join [0x0A] (ls[k := l']))
      = concat (map data (take k (ls[k := l']))) @ data (ls[k := l'] ! k)
        @ concat (map data (drop (Suc k) (ls[k := l'])))"
    by (rule data_split)
  with data_split [OF assms(1,2)] assms(2,4) show ?thesis by simp
qed

lemma ws_start_nothing:
  assumes "l \<noteq> []" "isWhiteSpace (hd l)" "0x0A \<notin> set l"
  shows "okLine l \<and> \<not> matchesPattern l \<and> data l = []"
proof -
  have nh: "\<not> isHexDigit (hd l)" using assms(2) by (rule not_hex_ws)
  then have a: "okLine l \<and> \<not> matchesPattern l"
    using assms(3) by (intro not_hex_start_in_order) simp_all
  moreover have "\<not> dangling l"
    using nh assms(1) by (cases l) (auto simp: dangling_def)
  ultimately show ?thesis
    using assms(3) by (simp add: data_noise)
qed

subsection \<open>The texts of the examples\<close>

lemmas parse_simps = parseInt16_def ranges_def str_def isHexDigit_def hexValue_def digitValue_def
  roundDouble_def numeral_eq_enat

lemmas range_simps = withinLimits_def numeral_eq_enat upt_rec_numeral

lemmas hex_simps = hexDigits_def toString16_def digits16.simps padStart_def toUpperCase_def
  upperUnit_def digitChar_def str_def replicate_two numeral_eq_enat

lemma codePoints_of_ranges:
  "ranges propertyName d = rs \<Longrightarrow> withinLimits rs \<Longrightarrow>
   codePoints propertyName d = Inr (sort (concat (map rangeList rs)))"
  using codePoints_within [of propertyName d] by simp

lemma scenario_data:
  "data (str ''0041..0043 ; Foo\<newline>0050 ; Foo\<newline>'')
     = [\<lparr>codePointStart = Some (str ''0041''), codePointEnd = Some (str ''0043''),
         property = Some (str ''Foo'')\<rparr>,
        \<lparr>codePointStart = Some (str ''0050''), codePointEnd = None, property = Some (str ''Foo'')\<rparr>]"
  by code_simp

lemma scenario_ranges:
  "ranges (str ''Foo'') (data (str ''0041..0043 ; Foo\<newline>0050 ; Foo\<newline>''))
     = [(Num 0x41, Num 0x43), (Num 0x50, Num 0x50)]"
  unfolding scenario_data by (simp add: parse_simps)

lemma scenario_table:
  "codePoints (str ''Foo'') (data (str ''0041..0043 ; Foo\<newline>0050 ; Foo\<newline>''))
     = Inr [0x41, 0x42, 0x43, 0x50]"
proof -
  have "withinLimits (ranges (str ''Foo'') (data (str ''0041..0043 ; Foo\<newline>0050 ; Foo\<newline>'')))"
    unfolding scenario_ranges by (simp add: range_simps)
  from codePoints_within [OF this] show ?thesis
    unfolding scenario_ranges by (simp add: range_simps)
qed

lemma reversed_data:
  "data (str ''0050..0041 ; Foo\<newline>0060 ; Foo\<newline>'')
     = [\<lparr>codePointStart = Some (str ''0050''), codePointEnd = Some (str ''0041''),
         property = Some (str ''Foo'')\<rparr>,
        \<lparr>codePointStart = Some (str ''0060''), codePointEnd = None, property = Some (str ''Foo'')\<rparr>]"
  by code_simp

lemma big_data:
  "data (str ''20000000000000 ; Foo\<newline>'')
     = [\<lparr>codePointStart = Some (str ''20000000000000''), codePointEnd = None,
         property = Some (str ''Foo'')\<rparr>]"
  by code_simp

lemma big_ranges:
  "ranges (str ''Foo'') (data (str ''20000000000000 ; Foo\<newline>''))
     = [(Num (enat (2 ^ 53)), Num (enat (2 ^ 53)))]"
  unfolding big_data by (simp add: parse_simps)

lemma pushRange_bound:
  "pushRange cps (Num (enat (2 ^ 53)), Num (enat (2 ^ 53))) = Inl RangeError"
proof -
  have "forLoop (enat (2 ^ 53)) (enat (2 ^ 53)) cps = Inl RangeError"
    by (rule forLoop_stuck) (simp_all only: increment_bound order_refl)
  then show ?thesis by (simp only: pushRange.simps)
qed

lemma parse_rounds: "parseInt16 (Some (str ''20000000000001'')) = Num (enat (2 ^ 53))"
proof -
  have "bitLength (2 ^ 53 + 1) = 54"
    by (rule bitLength_unique) simp_all
  then have "roundDouble (2 ^ 53 + 1) = enat (2 ^ 53)"
    by (simp add: roundDouble_def)
  moreover have "hexValue (str ''20000000000001'') = 2 ^ 53 + 1"
    by (simp add: hexValue_def str_def digitValue_def)
  ultimately show ?thesis
    by (simp add: parseInt16_def) (simp add: str_def isHexDigit_def)
qed

lemma big_white_space_data:
  "data (str ''20000000000000 ; Pattern_White_Space\<newline>'')
     = [\<lparr>codePointStart = Some (str ''20000000000000''), codePointEnd = None,
         property = Some (str ''Pattern_White_Space'')\<rparr>]"
  by code_simp

lemma round_examples:
  "roundDouble (2 ^ 53 + 1) = enat (2 ^ 53) \<and> roundDouble (2 ^ 53 + 2) = enat (2 ^ 53 + 2)
   \<and> roundDouble (2 ^ 53 + 3) = enat (2 ^ 53 + 4) \<and> roundDouble (2 ^ 54 - 1) = enat (2 ^ 54)
   \<and> roundDouble (2 ^ 54 + 2) = enat (2 ^ 54) \<and> roundDouble (2 ^ 54 + 6) = enat (2 ^ 54 + 8)"
proof -
  have "bitLength (2 ^ 53 + 1) = 54" "bitLength (2 ^ 53 + 2) = 54" "bitLength (2 ^ 53 + 3) = 54"
    "bitLength (2 ^ 54 - 1) = 54" "bitLength (2 ^ 54 + 2) = 55" "bitLength (2 ^ 54 + 6) = 55"
    by (rule bitLength_unique, simp_all)+
  then show ?thesis
    by (simp add: roundDouble_def)
qed

lemma increment_examples:
  "increment (enat (2 ^ 53 - 1)) = enat (2 ^ 53) \<and> increment (enat (2 ^ 53)) = enat (2 ^ 53)
   \<and> increment (enat (2 ^ 53 + 2)) = enat (2 ^ 53 + 4)
   \<and> increment (enat (2 ^ 53 + 4)) = enat (2 ^ 53 + 4)"
proof -
  have "bitLength (2 ^ 53 + 1) = 54" "bitLength (2 ^ 53 + 3) = 54" "bitLength (2 ^ 53 + 5) = 54"
    by (rule bitLength_unique, simp_all)+
  then show ?thesis
    by (simp add: increment_def roundDouble_def)
qed

lemma pushRange_past_bound:
  "pushRange [] (Num (enat (2 ^ 53 + 2)), Num (enat (2 ^ 53 + 2))) = Inr [enat (2 ^ 53 + 2)]
   \<and> pushRange [] (Num (enat (2 ^ 53 + 4)), Num (enat (2 ^ 53 + 4))) = Inl RangeError"
proof -
  have "forLoop (enat (2 ^ 53 + 2)) (enat (2 ^ 53 + 2)) []
          = forLoop (increment (enat (2 ^ 53 + 2))) (enat (2 ^ 53 + 2)) ([] @ [enat (2 ^ 53 + 2)])"
    by (rule forLoop_step) simp_all
  also have "\<dots> = Inr [enat (2 ^ 53 + 2)]"
    using increment_examples by (simp add: forLoop_done)
  finally have "forLoop (enat (2 ^ 53 + 2)) (enat (2 ^ 53 + 2)) [] = Inr [enat (2 ^ 53 + 2)]" .
  moreover have "forLoop (enat (2 ^ 53 + 4)) (enat (2 ^ 53 + 4)) [] = Inl RangeError"
    by (rule forLoop_stuck) (use increment_examples in simp_all)
  ultimately show ?thesis by simp
qed

section \<open>The claims\<close>

text \<open>
  C1. On the text \<open>"0041..0043 ; Foo\n0050 ; Foo\n"\<close> with the single target
  \<open>(Foo, FOO_TABLE)\<close>, parsing, filtering and expanding give the code points
  \<open>[0x41, 0x42, 0x43, 0x50]\<close>, sorting gives the table \<open>[0x41, 0x42, 0x43, 0x50]\<close>, and
  it is the table declared under the name \<open>FOO_TABLE\<close>.
\<close>

theorem scenario_foo_table:
  "expanded (str ''Foo'') (data (str ''0041..0043 ; Foo\<newline>0050 ; Foo\<newline>''))
     = Inr [0x41, 0x42, 0x43, 0x50]
   \<and> codePoints (str ''Foo'') (data (str ''0041..0043 ; Foo\<newline>0050 ; Foo\<newline>''))
     = Inr [0x41, 0x42, 0x43, 0x50]
   \<and> rustVariables [(str ''Foo'', str ''FOO_TABLE'')]
         (str ''0041..0043 ; Foo\<newline>0050 ; Foo\<newline>'')
     = Inr [rustVariable (str ''FOO_TABLE'') [0x41, 0x42, 0x43, 0x50]]"
proof -
  have "reduce [] [(Num 0x41, Num 0x43), (Num 0x50, Num 0x50)]
          = Inr ([] @ concat (map rangeList [(Num 0x41, Num 0x43), (Num 0x50, Num 0x50)]))"
    by (rule reduce_plain) (simp_all add: range_simps)
  then have "expanded (str ''Foo'') (data (str ''0041..0043 ; Foo\<newline>0050 ; Foo\<newline>''))
     = Inr [0x41, 0x42, 0x43, 0x50]"
    unfolding expanded_def scenario_ranges by (simp add: range_simps)
  then show ?thesis
    by (simp add: scenario_table)
qed

text \<open>
  C2. For a record with \<open>codePointStart = s\<close> and \<open>codePointEnd = e\<close>, where
  \<open>e < 2^53\<close> as for every Unicode code point, the expansion step appends to the code
  points collected so far exactly the integers of the inclusive interval \<open>[s, e]\<close>, in
  ascending order and with none left out, as long as the array can hold them; when it cannot,
  \<open>push\<close> throws a RangeError. Their number is \<open>e - s + 1\<close> when the interval is not
  empty and \<open>0\<close> otherwise, that is \<open>max 0 (e - s + 1)\<close>. The bound on \<open>e\<close> is
  needed: a range that begins at or below \<open>2^53\<close> and ends at or above it never gets past
  \<open>2^53\<close>, where \<open>cp++\<close> leaves \<open>cp\<close> as it is, and ends in the RangeError.
\<close>

theorem range_expansion:
  assumes "e < 2 ^ 53"
  shows "pushRange cps (Num (enat s), Num (enat e))
           = (if e < s \<or> length cps + (e - s + 1) \<le> 2 ^ 32 - 1
              then Inr (cps @ map enat [s ..< Suc e]) else Inl RangeError)
         \<and> int (length (map enat [s ..< Suc e])) = max 0 (int e - int s + 1)
         \<and> set (map enat [s ..< Suc e]) = enat ` {s .. e}
         \<and> (\<forall>cpEnd. s \<le> 2 ^ 53 \<and> enat (2 ^ 53) \<le> cpEnd
               \<longrightarrow> pushRange cps (Num (enat s), Num cpEnd) = Inl RangeError)"
proof -
  have "pushRange cps (Num (enat s), Num (enat e))
           = (if e < s \<or> length cps + (e - s + 1) \<le> 2 ^ 32 - 1
              then Inr (cps @ map enat [s ..< Suc e]) else Inl RangeError)"
    using forLoop_plain [OF assms, of s cps] by (auto simp: Suc_diff_le)
  moreover have "int (length (map enat [s ..< Suc e])) = max 0 (int e - int s + 1)"
    by auto
  moreover have "set (map enat [s ..< Suc e]) = enat ` {s .. e}"
    by auto
  moreover have "pushRange cps (Num (enat s), Num cpEnd) = Inl RangeError"
    if "s \<le> 2 ^ 53" "enat (2 ^ 53) \<le> cpEnd" for cpEnd
    using forLoop_climb [OF that] by simp
  ultimately show ?thesis by blast
qed

text \<open>The ranges \<open>0041..0043\<close> on an empty array and \<open>0050\<close> on an array that holds \<open>0x30\<close>.\<close>

theorem range_expansion_witness:
  "pushRange [] (Num 0x41, Num 0x43) = Inr [0x41, 0x42, 0x43]
   \<and> pushRange [0x30] (Num 0x50, Num 0x50) = Inr [0x30, 0x50]"
proof -
  have b: "(0x43::nat) < 2 ^ 53" "(0x50::nat) < 2 ^ 53" by simp_all
  from range_expansion [OF b(1), of "[]" "0x41"] range_expansion [OF b(2), of "[0x30]" "0x50"]
  show ?thesis
    by (simp add: range_simps)
qed

text \<open>
  The claim as stated fails twice. The record \<open>0050..0041 ; Foo\<close> is parsed, and its
  expansion is empty while \<open>e - s + 1 = -14\<close>. The record \<open>20000000000000 ; Foo\<close> is
  parsed into \<open>s = e = 2^53\<close>, and its expansion is not the one code point \<open>2^53\<close> but
  a RangeError; the field \<open>20000000000001\<close> is not even read as the integer it denotes.
\<close>

theorem range_expansion_counterexample:
  "ranges (str ''Foo'') (data (str ''0050..0041 ; Foo\<newline>0060 ; Foo\<newline>''))
     = [(Num 0x50, Num 0x41), (Num 0x60, Num 0x60)]
   \<and> pushRange [] (Num 0x50, Num 0x41) = Inr []
   \<and> int (length ([] :: enat list)) \<noteq> int 0x41 - int 0x50 + 1
   \<and> ranges (str ''Foo'') (data (str ''20000000000000 ; Foo\<newline>''))
       = [(Num (enat (2 ^ 53)), Num (enat (2 ^ 53)))]
   \<and> pushRange [] (Num (enat (2 ^ 53)), Num (enat (2 ^ 53))) = Inl RangeError
   \<and> parseInt16 (Some (str ''20000000000001'')) = Num (enat (2 ^ 53))"
proof -
  have "ranges (str ''Foo'') (data (str ''0050..0041 ; Foo\<newline>0060 ; Foo\<newline>''))
     = [(Num 0x50, Num 0x41), (Num 0x60, Num 0x60)]"
    unfolding reversed_data by (simp add: parse_simps)
  moreover have "pushRange [] (Num 0x50, Num 0x41) = Inr []"
    by (simp add: forLoop_done)
  moreover note big_ranges pushRange_bound [of "[]"] parse_rounds
  ultimately show ?thesis by simp
qed

text \<open>
  C3. If the ranges of the records of a property do not overlap pairwise, the table of the
  property is strictly increasing: no two entries are equal. The table holds exactly the
  code points of those ranges. This is so for every table the script produces, and it
  produces the table whenever the ranges are within limits.
\<close>

theorem strictly_increasing_table:
  assumes "nonOverlapping (ranges propertyName (data propListText))"
  shows "(\<forall>table. codePoints propertyName (data propListText) = Inr table \<longrightarrow>
            sorted_wrt (<) table \<and> distinct table
            \<and> set table = (\<Union>r \<in> set (ranges propertyName (data propListText)). set (rangeList r)))
         \<and> (withinLimits (ranges propertyName (data propListText)) \<longrightarrow>
              (\<exists>table. codePoints propertyName (data propListText) = Inr table))"
proof -
  have "sorted_wrt (<) table \<and> distinct table
        \<and> set table = (\<Union>r \<in> set (ranges propertyName (data propListText)). set (rangeList r))"
    if "codePoints propertyName (data propListText) = Inr table" for table
    using codePoints_exact [OF that] distinct_ranges [OF assms]
    by (simp add: strict_sorted_iff)
  then show ?thesis
    by (auto dest: codePoints_within)
qed

text \<open>The two records of the end-to-end scenario do not overlap.\<close>

theorem strictly_increasing_table_witness:
  "nonOverlapping (ranges (str ''Foo'') (data (str ''0041..0043 ; Foo\<newline>0050 ; Foo\<newline>'')))
   \<and> codePoints (str ''Foo'') (data (str ''0041..0043 ; Foo\<newline>0050 ; Foo\<newline>''))
       = Inr [0x41, 0x42, 0x43, 0x50]
   \<and> sorted_wrt (<) [0x41, 0x42, 0x43, 0x50 :: enat]"
proof -
  have h: "nonOverlapping (ranges (str ''Foo'') (data (str ''0041..0043 ; Foo\<newline>0050 ; Foo\<newline>'')))"
    unfolding scenario_ranges by (simp add: numeral_eq_enat)
  from strictly_increasing_table [OF h] scenario_table
  have "sorted_wrt (<) [0x41, 0x42, 0x43, 0x50 :: enat]" by blast
  with h scenario_table show ?thesis by blast
qed

text \<open>
  C4. In a text whose lines are in order, a line
  \<open><hex-start>[..<hex-end>]<ws>;<ws><property-token>\<close> followed by trailing white space,
  or by white space and a comment introduced by \<open>#\<close>, is parsed into the record of the
  line without the decoration: the start, the optional end and the property token. The
  record stands among the records of the text at the place of the line, between the records
  of the lines before and those of the lines after, and taking the decoration away changes
  nothing. White space in front of a line is not tolerated, contrary to the claim: the
  pattern wants the first hexadecimal digit right at the start of the text or after a line
  feed, so a line that begins with white space does not match and gives no record, and the
  records of the text are those of the text without it. \<open>ls\<close> are the lines of the
  text, \<open>k\<close> is the place of the decorated line and \<open>j\<close> that of a line that begins
  with white space.
\<close>

theorem trailing_decoration_ignored:
  assumes "\<forall>l \<in> set ls. okLine l"
  shows "(k < length ls \<and> ls ! k = recordLine hs he ws1 ws2 tok @ trailing
            \<and> wellFormed hs he ws1 ws2 tok \<and> (trailing = [] \<or> isWhiteSpace (hd trailing))
          \<longrightarrow>
            data (join (str ''\<newline>'') ls)
              = concat (map data (take k ls))
                @ [\<lparr>codePointStart = Some hs, codePointEnd = he, property = Some tok\<rparr>]
                @ concat (map data (drop (Suc k) ls))
            \<and> data (join (str ''\<newline>'') (ls[k := recordLine hs he ws1 ws2 tok]))
                = data (join (str ''\<newline>'') ls))
         \<and> (j < length ls \<and> ls ! j \<noteq> [] \<and> isWhiteSpace (hd (ls ! j))
          \<longrightarrow>
            \<not> matchesPattern (ls ! j) \<and> data (ls ! j) = []
            \<and> data (join (str ''\<newline>'') ls)
                = data (join (str ''\<newline>'') (take j ls @ drop (Suc j) ls)))"
proof -
  have a: "data (join (str ''\<newline>'') ls)
              = concat (map data (take k ls))
                @ [\<lparr>codePointStart = Some hs, codePointEnd = he, property = Some tok\<rparr>]
                @ concat (map data (drop (Suc k) ls))
            \<and> data (join (str ''\<newline>'') (ls[k := recordLine hs he ws1 ws2 tok]))
                = data (join (str ''\<newline>'') ls)"
    if k: "k < length ls" and l: "ls ! k = recordLine hs he ws1 ws2 tok @ trailing"
      and wf: "wellFormed hs he ws1 ws2 tok" and tr: "trailing = [] \<or> isWhiteSpace (hd trailing)"
  proof -
    from assms k have "okLine (ls ! k)" by simp
    then have nl: "0x0A \<notin> set (recordLine hs he ws1 ws2 tok)" "0x0A \<notin> set trailing"
      by (simp_all add: okLine_def l)
    have line: "data (ls ! k) = [\<lparr>codePointStart = Some hs, codePointEnd = he, property = Some tok\<rparr>]"
      unfolding l using wf tr nl(2) by (rule data_line)
    have bare: "data (recordLine hs he ws1 ws2 tok)
                  = [\<lparr>codePointStart = Some hs, codePointEnd = he, property = Some tok\<rparr>]"
      using data_line [OF wf, of "[]"] by simp
    have "matchesPattern (recordLine hs he ws1 ws2 tok)"
      using wellFormed_matches [OF wf, of "[]"] by simp
    with nl(1) have ok: "okLine (recordLine hs he ws1 ws2 tok)"
      by (simp add: okLine_def)
    have "data (join (str ''\<newline>'') ls)
           = concat (map data (take k ls))
             @ [\<lparr>codePointStart = Some hs, codePointEnd = he, property = Some tok\<rparr>]
             @ concat (map data (drop (Suc k) ls))"
      unfolding nl_str using data_split [OF assms k] by (simp add: line)
    moreover have "data (join (str ''\<newline>'') (ls[k := recordLine hs he ws1 ws2 tok]))
             = data (join (str ''\<newline>'') ls)"
      unfolding nl_str using assms k ok by (rule data_replace) (simp add: line bare)
    ultimately show ?thesis by blast
  qed
  have c: "\<not> matchesPattern (ls ! j) \<and> data (ls ! j) = []
           \<and> data (join (str ''\<newline>'') ls) = data (join (str ''\<newline>'') (take j ls @ drop (Suc j) ls))"
    if j: "j < length ls" and w: "ls ! j \<noteq> [] \<and> isWhiteSpace (hd (ls ! j))"
  proof -
    from assms j have "0x0A \<notin> set (ls ! j)" by (simp add: okLine_def)
    with w have n: "\<not> matchesPattern (ls ! j)" "data (ls ! j) = []"
      using ws_start_nothing [of "ls ! j"] by simp_all
    from data_without [OF assms j n(2)] n show ?thesis
      by (simp add: nl_str)
  qed
  from a c show ?thesis by blast
qed

text \<open>
  A range line with a trailing comment, second among four lines, and an indented line after
  it.
\<close>

theorem trailing_decoration_ignored_witness:
  "data (str ''# comment\<newline>0041..0043 ; Foo   # a comment\<newline> 0050 ; Foo\<newline>0060 ; Bar'')
     = [\<lparr>codePointStart = Some (str ''0041''), codePointEnd = Some (str ''0043''),
         property = Some (str ''Foo'')\<rparr>,
        \<lparr>codePointStart = Some (str ''0060''), codePointEnd = None, property = Some (str ''Bar'')\<rparr>]
   \<and> data (str ''# comment\<newline>0041..0043 ; Foo\<newline> 0050 ; Foo\<newline>0060 ; Bar'')
       = data (str ''# comment\<newline>0041..0043 ; Foo   # a comment\<newline> 0050 ; Foo\<newline>0060 ; Bar'')
   \<and> data (str ''# comment\<newline>0041..0043 ; Foo   # a comment\<newline>0060 ; Bar'')
       = data (str ''# comment\<newline>0041..0043 ; Foo   # a comment\<newline> 0050 ; Foo\<newline>0060 ; Bar'')"
proof -
  let ?ls = "[str ''# comment'', str ''0041..0043 ; Foo   # a comment'', str '' 0050 ; Foo'',
              str ''0060 ; Bar'']"
  have h: "\<forall>l \<in> set ?ls. okLine l"
    by code_simp
  have k: "1 < length ?ls" by simp
  have l: "?ls ! 1 = recordLine (str ''0041'') (Some (str ''0043'')) (str '' '') (str '' '') (str ''Foo'')
                       @ str ''   # a comment''"
    by (simp add: recordLine_def str_def)
  have wf: "wellFormed (str ''0041'') (Some (str ''0043'')) (str '' '') (str '' '') (str ''Foo'')"
    by (simp add: wellFormed_def str_def isHexDigit_def isWhiteSpace_def)
  have tr: "str ''   # a comment'' = [] \<or> isWhiteSpace (hd (str ''   # a comment''))"
    by (simp add: str_def isWhiteSpace_def)
  have d: "data (str ''# comment'') = []"
    "data (str ''0060 ; Bar'')
       = [\<lparr>codePointStart = Some (str ''0060''), codePointEnd = None, property = Some (str ''Bar'')\<rparr>]"
    "data (str '' 0050 ; Foo'') = []"
    by code_simp+
  have t: "join (str ''\<newline>'') ?ls
             = str ''# comment\<newline>0041..0043 ; Foo   # a comment\<newline> 0050 ; Foo\<newline>0060 ; Bar''"
    "join (str ''\<newline>'')
       (?ls[1 := recordLine (str ''0041'') (Some (str ''0043'')) (str '' '') (str '' '') (str ''Foo'')])
       = str ''# comment\<newline>0041..0043 ; Foo\<newline> 0050 ; Foo\<newline>0060 ; Bar''"
    "join (str ''\<newline>'') (take 2 ?ls @ drop (Suc 2) ?ls)
       = str ''# comment\<newline>0041..0043 ; Foo   # a comment\<newline>0060 ; Bar''"
    by (simp_all add: str_def recordLine_def)
  have w: "2 < length ?ls" "?ls ! 2 \<noteq> [] \<and> isWhiteSpace (hd (?ls ! 2))"
    by (simp_all add: str_def isWhiteSpace_def)
  from trailing_decoration_ignored [OF h, where k = 1 and j = 2 and hs = "str ''0041''"
      and he = "Some (str ''0043'')" and ?ws1.0 = "str '' ''" and ?ws2.0 = "str '' ''"
      and tok = "str ''Foo''" and trailing = "str ''   # a comment''"] k l wf tr w
  have a: "data (join (str ''\<newline>'') ?ls)
           = concat (map data (take 1 ?ls))
             @ [\<lparr>codePointStart = Some (str ''0041''), codePointEnd = Some (str ''0043''),
                 property = Some (str ''Foo'')\<rparr>]
             @ concat (map data (drop (Suc 1) ?ls))"
    and b: "data (join (str ''\<newline>'')
               (?ls[1 := recordLine (str ''0041'') (Some (str ''0043'')) (str '' '') (str '' '') (str ''Foo'')]))
             = data (join (str ''\<newline>'') ?ls)"
    and c: "data (join (str ''\<newline>'') ?ls)
                   = data (join (str ''\<newline>'') (take 2 ?ls @ drop (Suc 2) ?ls))"
    by blast+
  have a': "data (join (str ''\<newline>'') ?ls)
     = [\<lparr>codePointStart = Some (str ''0041''), codePointEnd = Some (str ''0043''),
         property = Some (str ''Foo'')\<rparr>,
        \<lparr>codePointStart = Some (str ''0060''), codePointEnd = None, property = Some (str ''Bar'')\<rparr>]"
    unfolding a by (simp add: d)
  from a' b c show ?thesis
    unfolding t by simp
qed

text \<open>
  A leading blank makes the line invisible to the parser, alone and among other lines; a
  \<open>#\<close> that touches the property token is part of the token; and after a dangling row a
  decorated line is not parsed into its record.
\<close>

theorem leading_whitespace_counterexample:
  "data (str '' 0041 ; Foo'') = []
   \<and> data (str ''0041 ; Foo'')
       = [\<lparr>codePointStart = Some (str ''0041''), codePointEnd = None, property = Some (str ''Foo'')\<rparr>]
   \<and> data (str ''0050 ; Bar\<newline> 0041 ; Foo\<newline>'')
       = [\<lparr>codePointStart = Some (str ''0050''), codePointEnd = None, property = Some (str ''Bar'')\<rparr>]
   \<and> data (str ''0041 ; Foo#c'')
       = [\<lparr>codePointStart = Some (str ''0041''), codePointEnd = None, property = Some (str ''Foo#c'')\<rparr>]
   \<and> data (str ''0041 ;\<newline>0050 ; Foo # c'')
       = [\<lparr>codePointStart = Some (str ''0041''), codePointEnd = None, property = Some (str ''0050'')\<rparr>]"
  by code_simp

text \<open>
  C5. In a text whose lines are in order, the parsed records are those of the lines taken
  one by one: a line that does not match the record pattern gives no record, and removing
  those lines changes neither the records of the matching lines nor any table. Every line
  that does not begin with a hexadecimal digit (a blank line, a comment line starting with
  \<open>#\<close>) is in order and does not match. The claim as stated, for every line that does not
  match, fails for dangling rows: the \<open>\s*\<close> of the pattern runs over the line feed, so
  \<open>"0041 ;"\<close> takes the start of the next line as its property token, and the lines
  \<open>"0041"\<close> and \<open>"; Foo"\<close> together give a record.
\<close>

theorem noise_lines_ignored:
  assumes "\<forall>l \<in> set ls. okLine l"
  shows "data (join (str ''\<newline>'') ls) = concat (map data ls)
         \<and> (\<forall>l \<in> set ls. \<not> matchesPattern l \<longrightarrow> data l = [])
         \<and> data (join (str ''\<newline>'') ls)
             = data (join (str ''\<newline>'') (filter matchesPattern ls))
         \<and> codePoints propertyName (data (join (str ''\<newline>'') ls))
             = codePoints propertyName (data (join (str ''\<newline>'') (filter matchesPattern ls)))
         \<and> (\<forall>l. 0x0A \<notin> set l \<and> (l = [] \<or> \<not> isHexDigit (hd l))
                \<longrightarrow> okLine l \<and> \<not> matchesPattern l)"
proof -
  have all: "data (join (str ''\<newline>'') ls) = concat (map data ls)"
    unfolding nl_str using assms by (rule scan_lines)
  have noise: "\<forall>l \<in> set ls. \<not> matchesPattern l \<longrightarrow> data l = []"
    using assms by (auto simp: okLine_def data_noise)
  have "\<forall>l \<in> set (filter matchesPattern ls). okLine l"
    using assms by simp
  then have "data (join (str ''\<newline>'') (filter matchesPattern ls))
               = concat (map data (filter matchesPattern ls))"
    unfolding nl_str by (rule scan_lines)
  also have "\<dots> = concat (map data ls)"
    using noise by (rule concat_data_filter)
  finally have "data (join (str ''\<newline>'') ls)
                  = data (join (str ''\<newline>'') (filter matchesPattern ls))"
    using all by simp
  with all noise not_hex_start_in_order show ?thesis by simp
qed

text \<open>A comment line, a row without a semicolon, a blank line and a final line feed among two records.\<close>

theorem noise_lines_ignored_witness:
  "data (str ''# comment\<newline>0041..0043 ; Foo\<newline>00A0 Bar\<newline>\<newline>0050 ; Foo # x\<newline>'')
     = data (str ''0041..0043 ; Foo\<newline>0050 ; Foo # x'')
   \<and> data (str ''# comment'') = [] \<and> data (str ''00A0 Bar'') = []
   \<and> okLine (str ''# comment'') \<and> \<not> matchesPattern (str ''# comment'')"
proof -
  let ?ls = "[str ''# comment'', str ''0041..0043 ; Foo'', str ''00A0 Bar'', [], str ''0050 ; Foo # x'', []]"
  have h: "\<forall>l \<in> set ?ls. okLine l"
    by code_simp
  have n: "matchesPattern (str ''0041..0043 ; Foo'')" "\<not> matchesPattern (str ''00A0 Bar'')"
    "\<not> matchesPattern []" "matchesPattern (str ''0050 ; Foo # x'')"
    by code_simp+
  have c: "0x0A \<notin> set (str ''# comment'')
           \<and> (str ''# comment'' = [] \<or> \<not> isHexDigit (hd (str ''# comment'')))"
    by (simp add: str_def isHexDigit_def)
  have t: "join (str ''\<newline>'') ?ls
             = str ''# comment\<newline>0041..0043 ; Foo\<newline>00A0 Bar\<newline>\<newline>0050 ; Foo # x\<newline>''"
    by (simp add: str_def)
  from noise_lines_ignored [OF h, of "[]"] have
    eq: "data (join (str ''\<newline>'') ?ls) = data (join (str ''\<newline>'') (filter matchesPattern ?ls))"
    and no: "\<forall>l \<in> set ?ls. \<not> matchesPattern l \<longrightarrow> data l = []"
    and blank: "\<forall>l. 0x0A \<notin> set l \<and> (l = [] \<or> \<not> isHexDigit (hd l))
                  \<longrightarrow> okLine l \<and> \<not> matchesPattern l"
    by blast+
  from blank c have k: "okLine (str ''# comment'')" "\<not> matchesPattern (str ''# comment'')"
    by blast+
  have f: "join (str ''\<newline>'') (filter matchesPattern ?ls) = str ''0041..0043 ; Foo\<newline>0050 ; Foo # x''"
    by (simp add: n k(2)) (simp add: str_def)
  from no n(2) k(2) have "data (str ''# comment'') = []" "data (str ''00A0 Bar'') = []"
    by simp_all
  with eq k show ?thesis
    unfolding t f by simp
qed

text \<open>
  The row \<open>"0041 ;"\<close> does not match the pattern, yet with it in front the record of
  \<open>"0050 ; Foo"\<close> is lost; \<open>"0041"\<close> and \<open>"; Foo"\<close> do not match either and put
  \<open>0x41\<close> into the table of \<open>Foo\<close>.
\<close>

theorem malformed_row_counterexample:
  "\<not> matchesPattern (str ''0041 ;'') \<and> dangling (str ''0041 ;'')
   \<and> data (str ''0041 ;\<newline>0050 ; Foo\<newline>'')
       = [\<lparr>codePointStart = Some (str ''0041''), codePointEnd = None, property = Some (str ''0050'')\<rparr>]
   \<and> data (str ''0050 ; Foo\<newline>'')
       = [\<lparr>codePointStart = Some (str ''0050''), codePointEnd = None, property = Some (str ''Foo'')\<rparr>]
   \<and> codePoints (str ''Foo'') (data (str ''0041 ;\<newline>0050 ; Foo\<newline>'')) = Inr []
   \<and> codePoints (str ''Foo'') (data (str ''0050 ; Foo\<newline>'')) = Inr [0x50]
   \<and> \<not> matchesPattern (str ''0041'') \<and> \<not> matchesPattern (str ''; Foo'')
   \<and> codePoints (str ''Foo'') (data (str ''0041\<newline>; Foo\<newline>'')) = Inr [0x41]"
proof -
  have m: "\<not> matchesPattern (str ''0041 ;'')" "dangling (str ''0041 ;'')"
    "\<not> matchesPattern (str ''0041'')" "\<not> matchesPattern (str ''; Foo'')"
    by code_simp+
  have d: "data (str ''0041 ;\<newline>0050 ; Foo\<newline>'')
       = [\<lparr>codePointStart = Some (str ''0041''), codePointEnd = None, property = Some (str ''0050'')\<rparr>]"
    "data (str ''0050 ; Foo\<newline>'')
       = [\<lparr>codePointStart = Some (str ''0050''), codePointEnd = None, property = Some (str ''Foo'')\<rparr>]"
    "data (str ''0041\<newline>; Foo\<newline>'')
       = [\<lparr>codePointStart = Some (str ''0041''), codePointEnd = None, property = Some (str ''Foo'')\<rparr>]"
    by code_simp+
  have "codePoints (str ''Foo'') (data (str ''0041 ;\<newline>0050 ; Foo\<newline>'')) = Inr []"
    unfolding d by (rule codePoints_absent) (simp add: str_def)
  moreover have "codePoints (str ''Foo'') (data (str ''0050 ; Foo\<newline>'')) = Inr [0x50]"
    unfolding d
    by (rule codePoints_of_ranges [of _ _ "[(Num 0x50, Num 0x50)]", THEN trans])
       (simp_all add: parse_simps range_simps)
  moreover have "codePoints (str ''Foo'') (data (str ''0041\<newline>; Foo\<newline>'')) = Inr [0x41]"
    unfolding d
    by (rule codePoints_of_ranges [of _ _ "[(Num 0x41, Num 0x41)]", THEN trans])
       (simp_all add: parse_simps range_simps)
  ultimately show ?thesis
    using m d(1,2) by simp
qed

text \<open>
  C6. When no record of the text has the property of a target, expanding and sorting for
  that target give the empty table and throw nothing, and in every run that gets as far as
  the declarations, one per target, the declaration
  \<open>pub(crate) static <name>: &[char] = &[];\<close> is among them. The run gets there, and
  yields its document, whenever the ranges of all targets are within limits; those of the
  target without records are. It does not on every text, contrary to the claim: the records
  of another target can end the run with a RangeError, and then there is no declaration and
  no document, for the target without records as for the others.
\<close>

theorem absent_property_empty_table:
  assumes "\<forall>g \<in> set (data propListText). property g \<noteq> Some propertyName"
    and "(propertyName, rustTableName) \<in> set targets"
  shows "expanded propertyName (data propListText) = Inr []
         \<and> codePoints propertyName (data propListText) = Inr []
         \<and> withinLimits (ranges propertyName (data propListText))
         \<and> (\<forall>decls. rustVariables targets propListText = Inr decls \<longrightarrow>
               length decls = length targets
               \<and> str ''pub(crate) static '' @ rustTableName @ str '': &[char] = &[];'' \<in> set decls)
         \<and> ((\<forall>(p, n) \<in> set targets. withinLimits (ranges p (data propListText))) \<longrightarrow>
               (\<exists>decls. rustVariables targets propListText = Inr decls
                  \<and> rustFile targets propListText
                      = Inr (OUTPUT_FILE_DOC_COMMENT @ str ''\<newline>\<newline>'' @
                             join (str ''\<newline>\<newline>'') decls)))"
proof -
  have r: "ranges propertyName (data propListText) = []"
    using assms(1) by (simp add: ranges_def filter_empty_conv [THEN iffD2])
  have e: "expanded propertyName (data propListText) = Inr []"
    by (simp add: expanded_def r)
  have c: "codePoints propertyName (data propListText) = Inr []"
    using assms(1) by (rule codePoints_absent)
  have w: "withinLimits (ranges propertyName (data propListText))"
    by (simp add: r withinLimits_def)
  have d: "length decls = length targets
           \<and> str ''pub(crate) static '' @ rustTableName @ str '': &[char] = &[];'' \<in> set decls"
    if "rustVariables targets propListText = Inr decls" for decls
    using rustVariables_member [OF that assms(2) c] rustVariables_length [OF that]
    by (simp add: rustVariable_empty)
  have f: "\<exists>decls. rustVariables targets propListText = Inr decls
                  \<and> rustFile targets propListText
                      = Inr (OUTPUT_FILE_DOC_COMMENT @ str ''\<newline>\<newline>'' @
                             join (str ''\<newline>\<newline>'') decls)"
    if "\<forall>(p, n) \<in> set targets. withinLimits (ranges p (data propListText))"
    using rustVariables_within [OF that] by (auto simp: rustFile_def)
  from e c w d f show ?thesis by blast
qed

text \<open>A text with records of \<open>Bar\<close> only, and the targets \<open>Bar\<close> and \<open>Foo\<close>.\<close>

theorem absent_property_empty_table_witness:
  "codePoints (str ''Foo'') (data (str ''0041..0043 ; Bar\<newline>'')) = Inr []
   \<and> rustVariables [(str ''Bar'', str ''BAR_TABLE''), (str ''Foo'', str ''FOO_TABLE'')]
        (str ''0041..0043 ; Bar\<newline>'')
       = Inr [rustVariable (str ''BAR_TABLE'') [0x41, 0x42, 0x43],
              str ''pub(crate) static FOO_TABLE: &[char] = &[];'']"
proof -
  let ?T = "[(str ''Bar'', str ''BAR_TABLE''), (str ''Foo'', str ''FOO_TABLE'')]"
  let ?text = "str ''0041..0043 ; Bar\<newline>''"
  have d: "data ?text = [\<lparr>codePointStart = Some (str ''0041''), codePointEnd = Some (str ''0043''),
                          property = Some (str ''Bar'')\<rparr>]"
    by code_simp
  have h: "\<forall>g \<in> set (data ?text). property g \<noteq> Some (str ''Foo'')"
    unfolding d by (simp add: str_def)
  have m: "(str ''Foo'', str ''FOO_TABLE'') \<in> set ?T"
    by simp
  have b: "codePoints (str ''Bar'') (data ?text) = Inr [0x41, 0x42, 0x43]"
    unfolding d
    by (rule codePoints_of_ranges [of _ _ "[(Num 0x41, Num 0x43)]", THEN trans])
       (simp_all add: parse_simps range_simps)
  from absent_property_empty_table [OF h m]
  have c: "codePoints (str ''Foo'') (data ?text) = Inr []"
    by blast
  have "str ''pub(crate) static '' @ str ''FOO_TABLE'' @ str '': &[char] = &[];''
          = str ''pub(crate) static FOO_TABLE: &[char] = &[];''"
    by (simp add: str_def)
  with b c show ?thesis
    by (simp add: rustVariable_empty)
qed

text \<open>
  The script's own targets on a text whose only record has the property
  \<open>Pattern_White_Space\<close> and the code point \<open>2^53\<close>: no record has the property
  \<open>Pattern_Syntax\<close>, its table is empty, and the run ends with a RangeError.
\<close>

theorem absent_property_counterexample:
  "data (str ''20000000000000 ; Pattern_White_Space\<newline>'')
     = [\<lparr>codePointStart = Some (str ''20000000000000''), codePointEnd = None,
         property = Some (str ''Pattern_White_Space'')\<rparr>]
   \<and> codePoints (str ''Pattern_Syntax'') (data (str ''20000000000000 ; Pattern_White_Space\<newline>''))
       = Inr []
   \<and> codePoints (str ''Pattern_White_Space'') (data (str ''20000000000000 ; Pattern_White_Space\<newline>''))
       = Inl RangeError
   \<and> rustVariables TARGET_PROPERTIES (str ''20000000000000 ; Pattern_White_Space\<newline>'')
       = Inl RangeError
   \<and> buildRustFile (str ''20000000000000 ; Pattern_White_Space\<newline>'') = Inl RangeError"
proof -
  let ?text = "str ''20000000000000 ; Pattern_White_Space\<newline>''"
  have absent: "codePoints (str ''Pattern_Syntax'') (data ?text) = Inr []"
    "codePoints (str ''Other_ID_Continue'') (data ?text) = Inr []"
    "codePoints (str ''Other_ID_Start'') (data ?text) = Inr []"
    unfolding big_white_space_data by (rule codePoints_absent, simp add: str_def)+
  have "ranges (str ''Pattern_White_Space'') (data ?text) = [(Num (enat (2 ^ 53)), Num (enat (2 ^ 53)))]"
    unfolding big_white_space_data by (simp add: parse_simps)
  then have present: "codePoints (str ''Pattern_White_Space'') (data ?text) = Inl RangeError"
    by (simp only: codePoints_def expanded_def reduce.simps pushRange_bound sum.case)
  have "rustVariables TARGET_PROPERTIES ?text = Inl RangeError"
    by (simp add: TARGET_PROPERTIES_def absent present)
  with absent(1) present big_white_space_data show ?thesis
    by (simp add: buildRustFile_def rustFile_def)
qed

text \<open>
  C7. The pipeline is deterministic. The only step whose algorithm the language leaves to
  the engine is the sort; whatever the engine does within its contract, every run on the
  same text has the same outcome, the same document or the same exception, and there is
  such a run.
\<close>

theorem run_deterministic:
  "buildRun targets propListText (rustFile targets propListText)
   \<and> (\<forall>out1 out2. buildRun targets propListText out1 \<longrightarrow> buildRun targets propListText out2
                     \<longrightarrow> out1 = out2)"
  by (simp add: buildRun_iff)

text \<open>Two runs on a text whose records are not in ascending order.\<close>

theorem run_deterministic_witness:
  "buildRun [(str ''Foo'', str ''FOO_TABLE'')] (str ''0050 ; Foo\<newline>0041..0043 ; Foo\<newline>'')
     (Inr (OUTPUT_FILE_DOC_COMMENT @ str ''\<newline>\<newline>'' @
           rustVariable (str ''FOO_TABLE'') [0x41, 0x42, 0x43, 0x50]))
   \<and> rustFile [(str ''Foo'', str ''FOO_TABLE'')] (str ''0050 ; Foo\<newline>0041..0043 ; Foo\<newline>'')
       = Inr (OUTPUT_FILE_DOC_COMMENT @ str ''\<newline>\<newline>'' @
              rustVariable (str ''FOO_TABLE'') [0x41, 0x42, 0x43, 0x50])"
proof -
  let ?T = "[(str ''Foo'', str ''FOO_TABLE'')]"
  let ?text = "str ''0050 ; Foo\<newline>0041..0043 ; Foo\<newline>''"
  let ?out = "Inr (OUTPUT_FILE_DOC_COMMENT @ str ''\<newline>\<newline>'' @
                   rustVariable (str ''FOO_TABLE'') [0x41, 0x42, 0x43, 0x50]) :: error + jsString"
  have d: "data ?text
     = [\<lparr>codePointStart = Some (str ''0050''), codePointEnd = None, property = Some (str ''Foo'')\<rparr>,
        \<lparr>codePointStart = Some (str ''0041''), codePointEnd = Some (str ''0043''),
         property = Some (str ''Foo'')\<rparr>]"
    by code_simp
  have r: "ranges (str ''Foo'') (data ?text) = [(Num 0x50, Num 0x50), (Num 0x41, Num 0x43)]"
    unfolding d by (simp add: parse_simps)
  have "reduce [] [(Num 0x50, Num 0x50), (Num 0x41, Num 0x43)]
          = Inr ([] @ concat (map rangeList [(Num 0x50, Num 0x50), (Num 0x41, Num 0x43)]))"
    by (rule reduce_plain) (simp_all add: range_simps)
  then have e: "expanded (str ''Foo'') (data ?text) = Inr [0x50, 0x41, 0x42, 0x43]"
    unfolding expanded_def r by (simp add: range_simps)
  have s: "sortContract [0x50, 0x41, 0x42, 0x43] [0x41, 0x42, 0x43, 0x50]"
    by (simp add: sortContract_def)
  have "variablesRun ?T ?text (Inr [rustVariable (str ''FOO_TABLE'') [0x41, 0x42, 0x43, 0x50]])"
    unfolding variablesRun.simps e sum.case
    by (intro exI [of _ "[0x41, 0x42, 0x43, 0x50]"] exI [of _ "Inr []"]) (simp add: s)
  then have r1: "buildRun ?T ?text ?out"
    unfolding buildRun_def
    by (intro exI [of _ "Inr [rustVariable (str ''FOO_TABLE'') [0x41, 0x42, 0x43, 0x50]]"]) simp
  from run_deterministic [of ?T ?text] have r2: "buildRun ?T ?text (rustFile ?T ?text)"
    and u: "\<forall>out1 out2. buildRun ?T ?text out1 \<longrightarrow> buildRun ?T ?text out2 \<longrightarrow> out1 = out2"
    by blast+
  from u r1 r2 have "rustFile ?T ?text = ?out" by metis
  with r1 show ?thesis by simp
qed

text \<open>
  C8. In a table declaration the literals are those of the code points in ascending order,
  and each literal is \<open>'\u{...}'\<close> around hexadecimal digits that are upper case, at least
  four (exactly four below \<open>0x10000\<close>, by padding with zeros) and denote the code point.
  Every entry of a table is an integer that \<open>parseInt\<close> reads back from its digits.
\<close>

theorem literals_ascending_uppercase:
  "(\<forall>table. codePoints propertyName d = Inr table \<longrightarrow>
      sorted table
      \<and> rustTable table = str ''&['' @ join (str '','') (map literal table) @ str '']''
      \<and> (\<forall>cp \<in> set table. \<exists>n. cp = enat n \<and> parseInt16 (Some (hexDigits cp)) = Num cp))
   \<and> literal (enat n) = [0x27, 0x5C] @ str ''u{'' @ hexDigits (enat n) @ str ''}'' @ [0x27]
   \<and> 4 \<le> length (hexDigits (enat n))
   \<and> list_all isUpperHexDigit (hexDigits (enat n))
   \<and> hexValue (hexDigits (enat n)) = n
   \<and> parseInt16 (Some (hexDigits (enat n))) = Num (roundDouble n)
   \<and> (n < 0x10000 \<longrightarrow> length (hexDigits (enat n)) = 4)"
proof -
  have "sorted table
      \<and> rustTable table = str ''&['' @ join (str '','') (map literal table) @ str '']''
      \<and> (\<forall>cp \<in> set table. \<exists>n. cp = enat n \<and> parseInt16 (Some (hexDigits cp)) = Num cp)"
    if t: "codePoints propertyName d = Inr table" for table
  proof -
    from codePoints_exact [OF t] have "sorted table" by simp
    moreover have "\<exists>n. cp = enat n \<and> parseInt16 (Some (hexDigits cp)) = Num cp"
      if "cp \<in> set table" for cp
      using codePoints_entries [OF t that] by (auto simp: parseInt16_hexDigits)
    ultimately show ?thesis by (simp add: rustTable_def)
  qed
  then show ?thesis
    using hexDigits_props [of n]
    by (simp add: literal_def parseInt16_hexDigits hexDigits_four)
qed

text \<open>
  The literals of \<open>0x41\<close>, \<open>0x2FF\<close> and \<open>0x10FFFF\<close>, and an entry of the table of the
  end-to-end scenario.
\<close>

theorem literals_ascending_uppercase_witness:
  "length (hexDigits 0x41) = 4 \<and> hexDigits 0x41 = str ''0041'' \<and> hexDigits 0x10FFFF = str ''10FFFF''
   \<and> parseInt16 (Some (hexDigits 0x50)) = Num 0x50
   \<and> rustTable [0x41, 0x2FF]
       = [0x26, 0x5B, 0x27, 0x5C] @ str ''u{0041}'' @ [0x27, 0x2C, 0x27, 0x5C] @ str ''u{02FF}''
         @ [0x27, 0x5D]"
proof -
  let ?d = "data (str ''0041..0043 ; Foo\<newline>0050 ; Foo\<newline>'')"
  have "(0x41::nat) < 0x10000" by simp
  with literals_ascending_uppercase [of "str ''Foo''" ?d "0x41"]
  have l: "length (hexDigits (enat 0x41)) = 4"
    and t: "\<forall>table. codePoints (str ''Foo'') ?d = Inr table \<longrightarrow>
              (\<forall>cp \<in> set table. \<exists>n. cp = enat n \<and> parseInt16 (Some (hexDigits cp)) = Num cp)"
    by blast+
  from t scenario_table have "parseInt16 (Some (hexDigits 0x50)) = Num 0x50"
    by simp
  moreover have "hexDigits 0x41 = str ''0041''" "hexDigits 0x2FF = str ''02FF''"
    "hexDigits 0x10FFFF = str ''10FFFF''"
    by (simp_all add: hex_simps)
  ultimately show ?thesis
    using l by (simp add: rustTable_def literal_def numeral_eq_enat) (simp add: str_def)
qed

text \<open>
  C9. The document of a run is the header comment, a blank line, and the declarations joined
  by blank lines: one declaration \<open>pub(crate) static <name>: &[char] = &[<literals>];\<close>
  per target, in the order of the targets, each with the name of its target and the literals
  of the table of its target, separated by commas. The header comment is the text below,
  without the line feeds around it in the script. A run yields its document whenever the
  ranges of all targets are within limits. For the script's own targets the declarations
  are those of \<open>PATTERN_SYNTAX\<close>, \<open>OTHER_ID_CONTINUE\<close>, \<open>OTHER_ID_START\<close> and
  \<open>PATTERN_WHITE_SPACE\<close>.
\<close>

theorem document_layout:
  "(\<forall>doc. rustFile targets propListText = Inr doc \<longrightarrow>
      (\<exists>tables.
         map (\<lambda>(propertyName, rustTableName). codePoints propertyName (data propListText)) targets
           = map Inr tables
         \<and> doc =
             str ''//! This module implements the unicode lookup tables for identifier and pattern syntax.\<newline>'' @
             str ''//! Version: Unicode 14.0.0\<newline>'' @
             str ''//!\<newline>'' @
             str ''//! This file is generated by `boa_unicode/build_tables.js`. Please do not modify it directly.\<newline>'' @
             str ''//!\<newline>'' @
             str ''//! More information:\<newline>'' @
             str ''//!  - [Unicode'' @ [0xAE] @ str '' Standard Annex #44][uax44]\<newline>'' @
             str ''//!\<newline>'' @
             str ''//! [uax44]: http://unicode.org/reports/tr44'' @
             str ''\<newline>\<newline>'' @
             join (str ''\<newline>\<newline>'')
               (map (\<lambda>((propertyName, rustTableName), table).
                       str ''pub(crate) static '' @ rustTableName @ str '': &[char] = &['' @
                       join (str '','')
                         (map (\<lambda>cp. [0x27, 0x5C] @ str ''u{'' @ hexDigits cp @ str ''}'' @ [0x27]) table)
                       @ str ''];'')
                    (zip targets tables))))
   \<and> ((\<forall>(propertyName, rustTableName) \<in> set targets.
          withinLimits (ranges propertyName (data propListText)))
        \<longrightarrow> (\<exists>doc. rustFile targets propListText = Inr doc))
   \<and> (\<forall>doc. buildRustFile propListText = Inr doc \<longrightarrow>
        (\<exists>t1 t2 t3 t4.
           codePoints (str ''Pattern_Syntax'') (data propListText) = Inr t1
           \<and> codePoints (str ''Other_ID_Continue'') (data propListText) = Inr t2
           \<and> codePoints (str ''Other_ID_Start'') (data propListText) = Inr t3
           \<and> codePoints (str ''Pattern_White_Space'') (data propListText) = Inr t4
           \<and> doc = OUTPUT_FILE_DOC_COMMENT @ str ''\<newline>\<newline>'' @
                   str ''pub(crate) static PATTERN_SYNTAX: &[char] = '' @ rustTable t1 @ str '';'' @
                   str ''\<newline>\<newline>'' @
                   str ''pub(crate) static OTHER_ID_CONTINUE: &[char] = '' @ rustTable t2 @ str '';'' @
                   str ''\<newline>\<newline>'' @
                   str ''pub(crate) static OTHER_ID_START: &[char] = '' @ rustTable t3 @ str '';'' @
                   str ''\<newline>\<newline>'' @
                   str ''pub(crate) static PATTERN_WHITE_SPACE: &[char] = '' @ rustTable t4 @ str '';''))"
proof -
  have layout: "\<exists>tables.
         map (\<lambda>(propertyName, rustTableName). codePoints propertyName (data propListText)) targets
           = map Inr tables
         \<and> doc =
             str ''//! This module implements the unicode lookup tables for identifier and pattern syntax.\<newline>'' @
             str ''//! Version: Unicode 14.0.0\<newline>'' @
             str ''//!\<newline>'' @
             str ''//! This file is generated by `boa_unicode/build_tables.js`. Please do not modify it directly.\<newline>'' @
             str ''//!\<newline>'' @
             str ''//! More information:\<newline>'' @
             str ''//!  - [Unicode'' @ [0xAE] @ str '' Standard Annex #44][uax44]\<newline>'' @
             str ''//!\<newline>'' @
             str ''//! [uax44]: http://unicode.org/reports/tr44'' @
             str ''\<newline>\<newline>'' @
             join (str ''\<newline>\<newline>'')
               (map (\<lambda>((propertyName, rustTableName), table).
                       str ''pub(crate) static '' @ rustTableName @ str '': &[char] = &['' @
                       join (str '','')
                         (map (\<lambda>cp. [0x27, 0x5C] @ str ''u{'' @ hexDigits cp @ str ''}'' @ [0x27]) table)
                       @ str ''];'')
                    (zip targets tables))"
    if "rustFile targets propListText = Inr doc" for doc
  proof -
    from that obtain vs where vs: "rustVariables targets propListText = Inr vs"
      and doc: "doc = OUTPUT_FILE_DOC_COMMENT @ str ''\<newline>\<newline>'' @ join (str ''\<newline>\<newline>'') vs"
      by (auto simp: rustFile_def split: sum.splits)
    from rustVariables_tables [OF vs] obtain tables where
      t: "map (\<lambda>(propertyName, rustTableName). codePoints propertyName (data propListText)) targets
            = map Inr tables"
      and v: "vs = map (\<lambda>((propertyName, rustTableName), table). rustVariable rustTableName table)
                    (zip targets tables)"
      by blast
    show ?thesis
      by (rule exI [of _ tables])
         (simp only: t doc v rustVariable_text doc_comment_text append_assoc simp_thms)
  qed
  have complete: "\<exists>doc. rustFile targets propListText = Inr doc"
    if "\<forall>(propertyName, rustTableName) \<in> set targets.
          withinLimits (ranges propertyName (data propListText))"
    using rustVariables_within [OF that] by (auto simp: rustFile_def)
  have own: "\<exists>t1 t2 t3 t4.
           codePoints (str ''Pattern_Syntax'') (data propListText) = Inr t1
           \<and> codePoints (str ''Other_ID_Continue'') (data propListText) = Inr t2
           \<and> codePoints (str ''Other_ID_Start'') (data propListText) = Inr t3
           \<and> codePoints (str ''Pattern_White_Space'') (data propListText) = Inr t4
           \<and> doc = OUTPUT_FILE_DOC_COMMENT @ str ''\<newline>\<newline>'' @
                   str ''pub(crate) static PATTERN_SYNTAX: &[char] = '' @ rustTable t1 @ str '';'' @
                   str ''\<newline>\<newline>'' @
                   str ''pub(crate) static OTHER_ID_CONTINUE: &[char] = '' @ rustTable t2 @ str '';'' @
                   str ''\<newline>\<newline>'' @
                   str ''pub(crate) static OTHER_ID_START: &[char] = '' @ rustTable t3 @ str '';'' @
                   str ''\<newline>\<newline>'' @
                   str ''pub(crate) static PATTERN_WHITE_SPACE: &[char] = '' @ rustTable t4 @ str '';''"
    if "buildRustFile propListText = Inr doc" for doc
  proof -
    have n: "str ''pub(crate) static '' @ str ''PATTERN_SYNTAX'' @ str '': &[char] = ''
               = str ''pub(crate) static PATTERN_SYNTAX: &[char] = ''"
      "str ''pub(crate) static '' @ str ''OTHER_ID_CONTINUE'' @ str '': &[char] = ''
               = str ''pub(crate) static OTHER_ID_CONTINUE: &[char] = ''"
      "str ''pub(crate) static '' @ str ''OTHER_ID_START'' @ str '': &[char] = ''
               = str ''pub(crate) static OTHER_ID_START: &[char] = ''"
      "str ''pub(crate) static '' @ str ''PATTERN_WHITE_SPACE'' @ str '': &[char] = ''
               = str ''pub(crate) static PATTERN_WHITE_SPACE: &[char] = ''"
      by (simp_all add: str_def)
    from that obtain t1 t2 t3 t4 where
      "codePoints (str ''Pattern_Syntax'') (data propListText) = Inr t1"
      "codePoints (str ''Other_ID_Continue'') (data propListText) = Inr t2"
      "codePoints (str ''Other_ID_Start'') (data propListText) = Inr t3"
      "codePoints (str ''Pattern_White_Space'') (data propListText) = Inr t4"
      "doc = OUTPUT_FILE_DOC_COMMENT @ str ''\<newline>\<newline>'' @
             join (str ''\<newline>\<newline>'')
               [rustVariable (str ''PATTERN_SYNTAX'') t1, rustVariable (str ''OTHER_ID_CONTINUE'') t2,
                rustVariable (str ''OTHER_ID_START'') t3, rustVariable (str ''PATTERN_WHITE_SPACE'') t4]"
      by (auto simp: buildRustFile_def rustFile_def TARGET_PROPERTIES_def split: sum.splits)
    moreover have "rustVariable (str nm) t
                     = (str ''pub(crate) static '' @ str nm @ str '': &[char] = '') @ rustTable t @ str '';''"
      for nm t
      by (simp add: rustVariable_def)
    ultimately show ?thesis
      by (simp only: join4 n append_assoc) blast
  qed
  from layout complete own show ?thesis by blast
qed

text \<open>The whole document for two targets and three records.\<close>

theorem document_layout_witness:
  "rustFile [(str ''Foo'', str ''FOO_TABLE''), (str ''Bar'', str ''BAR_TABLE'')]
       (str ''0050 ; Foo\<newline>0041 ; Bar\<newline>0043 ; Foo\<newline>'')
     = Inr (str ''//! This module implements the unicode lookup tables for identifier and pattern syntax.\<newline>'' @
            str ''//! Version: Unicode 14.0.0\<newline>'' @
            str ''//!\<newline>'' @
            str ''//! This file is generated by `boa_unicode/build_tables.js`. Please do not modify it directly.\<newline>'' @
            str ''//!\<newline>'' @
            str ''//! More information:\<newline>'' @
            str ''//!  - [Unicode'' @ [0xAE] @ str '' Standard Annex #44][uax44]\<newline>'' @
            str ''//!\<newline>'' @
            str ''//! [uax44]: http://unicode.org/reports/tr44\<newline>'' @
            str ''\<newline>'' @
            str ''pub(crate) static FOO_TABLE: &[char] = &['' @
              [0x27, 0x5C] @ str ''u{0043}'' @ [0x27] @ str '','' @
              [0x27, 0x5C] @ str ''u{0050}'' @ [0x27] @ str ''];\<newline>'' @
            str ''\<newline>'' @
            str ''pub(crate) static BAR_TABLE: &[char] = &['' @
              [0x27, 0x5C] @ str ''u{0041}'' @ [0x27] @ str ''];'')"
proof -
  let ?T = "[(str ''Foo'', str ''FOO_TABLE''), (str ''Bar'', str ''BAR_TABLE'')]"
  let ?text = "str ''0050 ; Foo\<newline>0041 ; Bar\<newline>0043 ; Foo\<newline>''"
  have d: "data ?text
     = [\<lparr>codePointStart = Some (str ''0050''), codePointEnd = None, property = Some (str ''Foo'')\<rparr>,
        \<lparr>codePointStart = Some (str ''0041''), codePointEnd = None, property = Some (str ''Bar'')\<rparr>,
        \<lparr>codePointStart = Some (str ''0043''), codePointEnd = None, property = Some (str ''Foo'')\<rparr>]"
    by code_simp
  have r: "ranges (str ''Foo'') (data ?text) = [(Num 0x50, Num 0x50), (Num 0x43, Num 0x43)]"
    "ranges (str ''Bar'') (data ?text) = [(Num 0x41, Num 0x41)]"
    unfolding d by (simp_all add: parse_simps)
  have w: "\<forall>(propertyName, rustTableName) \<in> set ?T. withinLimits (ranges propertyName (data ?text))"
    by (simp add: r range_simps)
  have c: "codePoints (str ''Foo'') (data ?text) = Inr [0x43, 0x50]"
    "codePoints (str ''Bar'') (data ?text) = Inr [0x41]"
    by (rule codePoints_of_ranges [OF r(1), THEN trans], simp_all add: range_simps,
        rule codePoints_of_ranges [OF r(2), THEN trans], simp_all add: range_simps)
  have h: "hexDigits 0x43 = str ''0043''" "hexDigits 0x50 = str ''0050''" "hexDigits 0x41 = str ''0041''"
    by (simp_all add: hex_simps)
  from document_layout [of ?T ?text] w obtain doc tables
    where doc: "rustFile ?T ?text = Inr doc"
      and t: "map (\<lambda>(propertyName, rustTableName). codePoints propertyName (data ?text)) ?T
                = map Inr tables"
      and l: "doc =
             str ''//! This module implements the unicode lookup tables for identifier and pattern syntax.\<newline>'' @
             str ''//! Version: Unicode 14.0.0\<newline>'' @
             str ''//!\<newline>'' @
             str ''//! This file is generated by `boa_unicode/build_tables.js`. Please do not modify it directly.\<newline>'' @
             str ''//!\<newline>'' @
             str ''//! More information:\<newline>'' @
             str ''//!  - [Unicode'' @ [0xAE] @ str '' Standard Annex #44][uax44]\<newline>'' @
             str ''//!\<newline>'' @
             str ''//! [uax44]: http://unicode.org/reports/tr44'' @
             str ''\<newline>\<newline>'' @
             join (str ''\<newline>\<newline>'')
               (map (\<lambda>((propertyName, rustTableName), table).
                       str ''pub(crate) static '' @ rustTableName @ str '': &[char] = &['' @
                       join (str '','')
                         (map (\<lambda>cp. [0x27, 0x5C] @ str ''u{'' @ hexDigits cp @ str ''}'' @ [0x27]) table)
                       @ str ''];'')
                    (zip ?T tables))"
    by blast
  from t have "tables = [[0x43, 0x50], [0x41]]"
    by (auto simp: c)
  with l have "doc =
            str ''//! This module implements the unicode lookup tables for identifier and pattern syntax.\<newline>'' @
            str ''//! Version: Unicode 14.0.0\<newline>'' @
            str ''//!\<newline>'' @
            str ''//! This file is generated by `boa_unicode/build_tables.js`. Please do not modify it directly.\<newline>'' @
            str ''//!\<newline>'' @
            str ''//! More information:\<newline>'' @
            str ''//!  - [Unicode'' @ [0xAE] @ str '' Standard Annex #44][uax44]\<newline>'' @
            str ''//!\<newline>'' @
            str ''//! [uax44]: http://unicode.org/reports/tr44\<newline>'' @
            str ''\<newline>'' @
            str ''pub(crate) static FOO_TABLE: &[char] = &['' @
              [0x27, 0x5C] @ str ''u{0043}'' @ [0x27] @ str '','' @
              [0x27, 0x5C] @ str ''u{0050}'' @ [0x27] @ str ''];\<newline>'' @
            str ''\<newline>'' @
            str ''pub(crate) static BAR_TABLE: &[char] = &['' @
              [0x27, 0x5C] @ str ''u{0041}'' @ [0x27] @ str ''];''"
    by (simp add: h) (simp add: str_def)
  with doc show ?thesis by simp
qed

text \<open>
  C10. A record whose end is below its start contributes no code point: the body of the
  loop never runs, nothing is thrown, the code points collected so far are unchanged, and
  the expansion goes on with the next record.
\<close>

theorem reversed_range_contributes_nothing:
  assumes "cpEnd < cpStart"
  shows "forLoop cpStart cpEnd cps = Inr cps
         \<and> pushRange cps (Num cpStart, Num cpEnd) = Inr cps
         \<and> reduce cps ((Num cpStart, Num cpEnd) # rs) = reduce cps rs"
proof -
  have "forLoop cpStart cpEnd cps = Inr cps"
    using assms by (intro forLoop_done) simp
  then show ?thesis by simp
qed

text \<open>The record \<open>0050..0041\<close> in front of the record \<open>0060\<close>.\<close>

theorem reversed_range_contributes_nothing_witness:
  "pushRange [0x30] (Num 0x50, Num 0x41) = Inr [0x30]
   \<and> ranges (str ''Foo'') (data (str ''0050..0041 ; Foo\<newline>0060 ; Foo\<newline>''))
       = [(Num 0x50, Num 0x41), (Num 0x60, Num 0x60)]
   \<and> codePoints (str ''Foo'') (data (str ''0050..0041 ; Foo\<newline>0060 ; Foo\<newline>'')) = Inr [0x60]"
proof -
  have r: "ranges (str ''Foo'') (data (str ''0050..0041 ; Foo\<newline>0060 ; Foo\<newline>''))
       = [(Num 0x50, Num 0x41), (Num 0x60, Num 0x60)]"
    unfolding reversed_data by (simp add: parse_simps)
  have "(0x41::enat) < 0x50" by simp
  from reversed_range_contributes_nothing [OF this, of "[0x30]"]
  have p: "pushRange [0x30] (Num 0x50, Num 0x41) = Inr [0x30]" by blast
  have "withinLimits (ranges (str ''Foo'') (data (str ''0050..0041 ; Foo\<newline>0060 ; Foo\<newline>'')))"
    unfolding r by (simp add: range_simps)
  from codePoints_within [OF this]
  have "codePoints (str ''Foo'') (data (str ''0050..0041 ; Foo\<newline>0060 ; Foo\<newline>'')) = Inr [0x60]"
    unfolding r by (simp add: range_simps)
  with r p show ?thesis by simp
qed

end
